theory Spec2Isabelle
  imports Complex_Main "HOL-Library.Sublist"
begin

section \<open>Path matcher\<close>

text \<open>
  A selection pattern is a list of per-level filters. The source type is
  \<^verbatim>\<open>(undefined | string | string[])[]\<close>: \<open>MatchAny\<close> is \<^verbatim>\<open>undefined\<close>,
  \<open>Exact s\<close> a string and \<open>OneOf ss\<close> an array of strings.
\<close>

datatype pathFilter = MatchAny | Exact string | OneOf "string list"

text \<open>
  \<^verbatim>\<open>path[i]\<close> in JavaScript: an index outside the array reads \<^verbatim>\<open>undefined\<close>,
  modelled as \<open>None\<close>.
\<close>

definition elemAt :: "'a list \<Rightarrow> nat \<Rightarrow> 'a option" where
  "elemAt xs i = (if i < length xs then Some (xs ! i) else None)"

text \<open>\<^verbatim>\<open>patternSegment.includes(pathSegment)\<close> on an array of strings.\<close>

definition arrayIncludes :: "string list \<Rightarrow> string option \<Rightarrow> bool" where
  "arrayIncludes ss seg = (case seg of None \<Rightarrow> False | Some x \<Rightarrow> x \<in> set ss)"

text \<open>
  The \<^verbatim>\<open>for (let i = 0; i < pattern.length; i++)\<close> loop of \<^verbatim>\<open>matchesPathPattern\<close>,
  started at index \<open>i\<close>.
\<close>

function matchLevels :: "string list \<Rightarrow> pathFilter list \<Rightarrow> nat \<Rightarrow> bool" where
  "matchLevels path pattern i =
     (if i < length pattern then
        (let pathSegment = elemAt path i in
         case pattern ! i of
           MatchAny \<Rightarrow> matchLevels path pattern (i + 1)
         | Exact s \<Rightarrow>
             if pathSegment \<noteq> Some s then False else matchLevels path pattern (i + 1)
         | OneOf ss \<Rightarrow>
             if \<not> arrayIncludes ss pathSegment then False else matchLevels path pattern (i + 1))
      else True)"
  by pat_completeness auto
termination
  by (relation "measure (\<lambda>(path, pattern, i). length pattern - i)") auto

definition matchesPathPattern :: "string list \<Rightarrow> pathFilter list \<Rightarrow> bool" where
  "matchesPathPattern path pattern =
     (if length pattern > length path then False else matchLevels path pattern 0)"


text \<open>
  What one filter accepts at one level, in the words of the pattern format:
  \<^verbatim>\<open>undefined\<close> matches any value, a string must be equal, an array must contain the
  segment.
\<close>

definition filterAccepts :: "pathFilter \<Rightarrow> string option \<Rightarrow> bool" where
  "filterAccepts f seg =
     (case f of
        MatchAny \<Rightarrow> True
      | Exact s \<Rightarrow> seg = Some s
      | OneOf ss \<Rightarrow> arrayIncludes ss seg)"

section \<open>Numbers\<close>

text \<open>
  Clock readings, durations and memory deltas are exact rationals; a computed statistic
  is a JavaScript number, which besides a finite value can be \<^verbatim>\<open>Infinity\<close>,
  \<^verbatim>\<open>-Infinity\<close> or \<^verbatim>\<open>NaN\<close> (a division by zero does not raise). Rounding of the
  binary floating-point format is not modelled, and a zero is taken as \<^verbatim>\<open>+0\<close>.
\<close>

datatype jsnum = Fin rat | PosInf | NegInf | NaN

fun jdiv :: "jsnum \<Rightarrow> jsnum \<Rightarrow> jsnum" where
  "jdiv (Fin a) (Fin b) =
     (if b = 0 then (if a = 0 then NaN else if 0 < a then PosInf else NegInf)
      else Fin (a / b))"
| "jdiv (Fin a) PosInf = Fin 0"
| "jdiv (Fin a) NegInf = Fin 0"
| "jdiv PosInf (Fin b) = (if 0 \<le> b then PosInf else NegInf)"
| "jdiv NegInf (Fin b) = (if 0 \<le> b then NegInf else PosInf)"
| "jdiv PosInf PosInf = NaN"
| "jdiv PosInf NegInf = NaN"
| "jdiv NegInf PosInf = NaN"
| "jdiv NegInf NegInf = NaN"
| "jdiv NaN y = NaN"
| "jdiv x NaN = NaN"

fun jmul :: "jsnum \<Rightarrow> jsnum \<Rightarrow> jsnum" where
  "jmul (Fin a) (Fin b) = Fin (a * b)"
| "jmul (Fin a) PosInf = (if a = 0 then NaN else if 0 < a then PosInf else NegInf)"
| "jmul (Fin a) NegInf = (if a = 0 then NaN else if 0 < a then NegInf else PosInf)"
| "jmul PosInf (Fin b) = (if b = 0 then NaN else if 0 < b then PosInf else NegInf)"
| "jmul NegInf (Fin b) = (if b = 0 then NaN else if 0 < b then NegInf else PosInf)"
| "jmul PosInf PosInf = PosInf"
| "jmul PosInf NegInf = NegInf"
| "jmul NegInf PosInf = NegInf"
| "jmul NegInf NegInf = PosInf"
| "jmul NaN y = NaN"
| "jmul x NaN = NaN"

text \<open>\<^verbatim>\<open>Math.round\<close>: the nearest integer, a half rounded up.\<close>

fun mathRound :: "jsnum \<Rightarrow> jsnum" where
  "mathRound (Fin a) = Fin (of_int \<lfloor>a + 1 / 2\<rfloor>)"
| "mathRound x = x"

text \<open>
  \<^verbatim>\<open>Math.min(...xs)\<close> and \<^verbatim>\<open>Math.max(...xs)\<close> over finite numbers: of no argument
  they are \<^verbatim>\<open>Infinity\<close> and \<^verbatim>\<open>-Infinity\<close>.
\<close>

definition mathMin :: "rat list \<Rightarrow> jsnum" where
  "mathMin xs = (case xs of [] \<Rightarrow> PosInf | x # rest \<Rightarrow> Fin (foldl min x rest))"

definition mathMax :: "rat list \<Rightarrow> jsnum" where
  "mathMax xs = (case xs of [] \<Rightarrow> NegInf | x # rest \<Rightarrow> Fin (foldl max x rest))"

text \<open>\<^verbatim>\<open>xs.reduce((a, b) => a + b, 0) / xs.length\<close>.\<close>

definition reduceAvg :: "rat list \<Rightarrow> jsnum" where
  "reduceAvg xs = jdiv (Fin (foldl (+) 0 xs)) (Fin (of_nat (length xs)))"


section \<open>Result records and the statistics of one leaf\<close>

record MeasurementResult =
  mr_path :: "string list option"
  mr_title :: string
  mr_dataSize :: nat
  mr_series :: "jsnum list"
  mr_avg :: jsnum
  mr_min :: jsnum
  mr_max :: jsnum
  mr_opsPerSecond :: jsnum
  mr_duration :: jsnum
  mr_durationMin :: jsnum
  mr_durationMax :: jsnum
  mr_memory :: "rat list option"
  mr_memoryAvg :: "jsnum option"
  mr_memoryMin :: "jsnum option"
  mr_memoryMax :: "jsnum option"

record CustomMeasurementResult =
  cr_path :: "string list option"
  cr_title :: string
  cr_dataSize :: nat
  cr_values :: "rat list"
  cr_avg :: jsnum
  cr_min :: jsnum
  cr_max :: jsnum
  cr_customChartId :: string

record MeasurementProgress =
  ev_path :: "string list option"
  ev_title :: string
  ev_dataSize :: nat
  ev_progress :: jsnum
  ev_result :: "MeasurementResult option"
  ev_customResult :: "CustomMeasurementResult option"

text \<open>
  The statistics block of a measure leaf in \<^verbatim>\<open>runMeasurements\<close>: from the collected
  series durations, the intra-series repetition count and the optional memory samples to
  the result record.
\<close>

definition measurementResult ::
  "string list option \<Rightarrow> string \<Rightarrow> nat \<Rightarrow> rat list \<Rightarrow> nat \<Rightarrow> rat list option \<Rightarrow> MeasurementResult"
where
  "measurementResult path title dataSize durations seriesSize memoryUsages =
     (let durationAvg = jdiv (reduceAvg durations) (Fin (of_nat seriesSize));
          durationMin = jdiv (mathMin durations) (Fin (of_nat seriesSize));
          durationMax = jdiv (mathMax durations) (Fin (of_nat seriesSize));
          opsAvg = jdiv (Fin 1000) durationAvg;
          opsMin = jdiv (Fin 1000) durationMax;
          opsMax = jdiv (Fin 1000) durationMin
      in \<lparr> mr_path = path, mr_title = title, mr_dataSize = dataSize,
           mr_series = map (\<lambda>duration. jdiv (Fin 1000) (Fin duration)) durations,
           mr_avg = opsAvg, mr_min = opsMin, mr_max = opsMax, mr_opsPerSecond = opsAvg,
           mr_duration = durationAvg, mr_durationMin = durationMin,
           mr_durationMax = durationMax,
           mr_memory = memoryUsages,
           mr_memoryAvg = map_option reduceAvg memoryUsages,
           mr_memoryMin = map_option mathMin memoryUsages,
           mr_memoryMax = map_option mathMax memoryUsages \<rparr>)"

text \<open>The statistics block of an evaluate leaf.\<close>

definition customResult ::
  "string list option \<Rightarrow> string \<Rightarrow> nat \<Rightarrow> rat list \<Rightarrow> string \<Rightarrow> CustomMeasurementResult"
where
  "customResult path title dataSize vals chartId =
     \<lparr> cr_path = path, cr_title = title, cr_dataSize = dataSize, cr_values = vals,
       cr_avg = reduceAvg vals, cr_min = mathMin vals, cr_max = mathMax vals,
       cr_customChartId = chartId \<rparr>"

text \<open>
  \<^verbatim>\<open>Math.round((currentStep / totalSteps) * 100)\<close>.
\<close>

definition progressOf :: "nat \<Rightarrow> nat \<Rightarrow> jsnum" where
  "progressOf stepNow stepsTotal =
     mathRound (jmul (jdiv (Fin (of_nat stepNow)) (Fin (of_nat stepsTotal))) (Fin 100))"

text \<open>The mean, the least and the greatest of a list, as mathematics has them.\<close>

definition mean :: "rat list \<Rightarrow> rat" where
  "mean xs = sum_list xs / of_nat (length xs)"

definition least :: "rat list \<Rightarrow> rat" where
  "least xs = Min (set xs)"

definition greatest :: "rat list \<Rightarrow> rat" where
  "greatest xs = Max (set xs)"


section \<open>The registry, the hierarchy and the run configuration\<close>

text \<open>
  A registered target function and a data generator are opaque JavaScript functions. The
  engine compares generators by identity (\<^verbatim>\<open>===\<close>), so a function is modelled by an
  identifier; what a call of it does is given by the environment of the run.
\<close>

record RegisteredFunction =
  rf_group :: string
  rf_subGroup :: string
  rf_title :: string
  rf_fn :: nat
  rf_dataGenerator :: nat
  rf_isAsync :: bool
  rf_path :: "string list option"

record CustomEvaluation =
  ce_customChart :: string
  ce_group :: string
  ce_subGroup :: string
  ce_title :: string
  ce_fn :: nat
  ce_dataGenerator :: nat
  ce_path :: "string list option"

text \<open>
  The hierarchy. Of a node the engine reads the type, the title, the path and the
  children; the functions it runs are those of the flat registry.
\<close>

datatype TestNode =
    DescribeNode string "string list" "TestNode list"
  | MeasureNode string "string list"
  | EvaluateNode string "string list"

text \<open>
  Settings and configuration: every field is optional. Data sizes and counts are natural
  numbers, the delay is in milliseconds.
\<close>

record MeasureSettings =
  st_port :: "nat option"
  st_dataUnitSizes :: "nat list option"
  st_dataUnitsCount :: "nat option"
  st_seriesSize :: "nat option"
  st_seriesCount :: "nat option"
  st_delay :: "nat option"
  st_forceGC :: "bool option"
  st_memoryMeasurementsCount :: "nat option"

record MeasurementConfig =
  cf_selectedPaths :: "pathFilter list list option"
  cf_dataUnitSizes :: "nat list option"
  cf_dataUnitsCount :: "nat option"
  cf_seriesSize :: "nat option"
  cf_seriesCount :: "nat option"
  cf_delay :: "nat option"
  cf_forceGC :: "bool option"
  cf_memoryMeasurementsCount :: "nat option"

text \<open>
  The process-wide registry that \<^verbatim>\<open>getRegisteredFunctions\<close>,
  \<^verbatim>\<open>getCustomEvaluations\<close>, \<^verbatim>\<open>getSettings\<close> and \<^verbatim>\<open>getTestHierarchy\<close> read.
\<close>

record registry =
  registeredFunctions :: "RegisteredFunction list"
  customEvaluations :: "CustomEvaluation list"
  globalSettings :: MeasureSettings
  rootNode :: TestNode

text \<open>\<^verbatim>\<open>a ?? b ?? d\<close>.\<close>

definition nullish :: "'a option \<Rightarrow> 'a option \<Rightarrow> 'a \<Rightarrow> 'a" where
  "nullish a b d = (case a of Some v \<Rightarrow> v | None \<Rightarrow> (case b of Some v \<Rightarrow> v | None \<Rightarrow> d))"

text \<open>The configuration overrides applied over the settings.\<close>

record runParams =
  dataUnitSizes :: "nat list"
  dataUnitsCount :: nat
  seriesSize :: nat
  seriesCount :: nat
  delay :: nat
  forceGC :: bool
  memoryMeasurementsCount :: "nat option"

definition applyOverrides :: "MeasurementConfig \<Rightarrow> MeasureSettings \<Rightarrow> runParams" where
  "applyOverrides config settings =
     \<lparr> dataUnitSizes = nullish (cf_dataUnitSizes config) (st_dataUnitSizes settings) [],
       dataUnitsCount = nullish (cf_dataUnitsCount config) (st_dataUnitsCount settings) 100,
       seriesSize = nullish (cf_seriesSize config) (st_seriesSize settings) 1000,
       seriesCount = nullish (cf_seriesCount config) (st_seriesCount settings) 10,
       delay = nullish (cf_delay config) (st_delay settings) 1,
       forceGC = nullish (cf_forceGC config) (st_forceGC settings) False,
       memoryMeasurementsCount =
         (case cf_memoryMeasurementsCount config of
            Some v \<Rightarrow> Some v
          | None \<Rightarrow> st_memoryMeasurementsCount settings) \<rparr>"

section \<open>Plan builder\<close>

text \<open>
  The callback of the two \<^verbatim>\<open>filter\<close> calls on \<^verbatim>\<open>config.selectedPaths\<close>: an entry
  without a path is dropped, another is kept when some pattern matches its path.
\<close>

definition pathSelected :: "pathFilter list list \<Rightarrow> string list option \<Rightarrow> bool" where
  "pathSelected selectedPaths path =
     (case path of
        None \<Rightarrow> False
      | Some p \<Rightarrow> list_ex (\<lambda>patternPath. matchesPathPattern p patternPath) selectedPaths)"

definition filteredFunctions ::
  "MeasurementConfig \<Rightarrow> RegisteredFunction list \<Rightarrow> RegisteredFunction list" where
  "filteredFunctions config fs =
     (case cf_selectedPaths config of
        None \<Rightarrow> fs
      | Some selectedPaths \<Rightarrow>
          if length selectedPaths > 0
          then filter (\<lambda>f. pathSelected selectedPaths (rf_path f)) fs
          else fs)"

definition filteredEvals ::
  "MeasurementConfig \<Rightarrow> CustomEvaluation list \<Rightarrow> CustomEvaluation list" where
  "filteredEvals config es =
     (case cf_selectedPaths config of
        None \<Rightarrow> es
      | Some selectedPaths \<Rightarrow>
          if length selectedPaths > 0
          then filter (\<lambda>e. pathSelected selectedPaths (ce_path e)) es
          else es)"

text \<open>\<^verbatim>\<open>traverseNode\<close>: the leaves in depth-first order, children in declaration order.\<close>

datatype leafType = MeasureLeaf | EvaluateLeaf

record orderedNode =
  on_type :: leafType
  on_path :: "string list"
  on_title :: string

fun traverseNode :: "TestNode \<Rightarrow> orderedNode list \<Rightarrow> orderedNode list"
  and traverseChildren :: "TestNode list \<Rightarrow> orderedNode list \<Rightarrow> orderedNode list"
where
  "traverseNode (MeasureNode title path) orderedNodes =
     orderedNodes @ [\<lparr> on_type = MeasureLeaf, on_path = path, on_title = title \<rparr>]"
| "traverseNode (EvaluateNode title path) orderedNodes =
     orderedNodes @ [\<lparr> on_type = EvaluateLeaf, on_path = path, on_title = title \<rparr>]"
| "traverseNode (DescribeNode title path children) orderedNodes =
     traverseChildren children orderedNodes"
| "traverseChildren [] orderedNodes = orderedNodes"
| "traverseChildren (child # children) orderedNodes =
     traverseChildren children (traverseNode child orderedNodes)"

text \<open>\<^verbatim>\<open>path.join(' > ')\<close>.\<close>

fun join :: "string list \<Rightarrow> string \<Rightarrow> string" where
  "join [] sep = []"
| "join [x] sep = x"
| "join (x # y # rest) sep = x @ sep @ join (y # rest) sep"

text \<open>
  The two lookup maps from the joined path: an entry needs a non-empty path, and a later
  entry with the same key replaces an earlier one.
\<close>

definition functionByPath :: "RegisteredFunction list \<Rightarrow> (string \<rightharpoonup> RegisteredFunction)" where
  "functionByPath fs =
     fold (\<lambda>func m.
             case rf_path func of
               None \<Rightarrow> m
             | Some p \<Rightarrow> if length p > 0 then m(join p '' > '' \<mapsto> func) else m)
          fs Map.empty"

definition evalByPath :: "CustomEvaluation list \<Rightarrow> (string \<rightharpoonup> CustomEvaluation)" where
  "evalByPath es =
     fold (\<lambda>customEval m.
             case ce_path customEval of
               None \<Rightarrow> m
             | Some p \<Rightarrow> if length p > 0 then m(join p '' > '' \<mapsto> customEval) else m)
          es Map.empty"

text \<open>
  A unified item: the type tag with the optional \<^verbatim>\<open>measure\<close> and \<^verbatim>\<open>evaluate\<close>
  fields of the source is one tagged value. The owner path key is the joined path of the
  parent; for a path of at most one segment it is \<^verbatim>\<open>path[0]\<close>, which is
  \<^verbatim>\<open>undefined\<close> (\<open>None\<close>) on an empty path.
\<close>

datatype leaf = MeasureItem RegisteredFunction | EvaluateItem CustomEvaluation

record UnifiedItem =
  registrationIndex :: nat
  pathKey :: "string option"
  title :: string
  payload :: leaf

definition keyPath :: "string list \<Rightarrow> string option" where
  "keyPath path =
     (if length path > 1 then Some (join (butlast path) '' > '') else elemAt path 0)"

fun unifyNodes ::
  "(string \<rightharpoonup> RegisteredFunction) \<Rightarrow> (string \<rightharpoonup> CustomEvaluation) \<Rightarrow>
   orderedNode list \<Rightarrow> nat \<Rightarrow> UnifiedItem list \<Rightarrow> UnifiedItem list"
where
  "unifyNodes fbp ebp [] regIndex unified = unified"
| "unifyNodes fbp ebp (node # nodes) regIndex unified =
     (let key = join (on_path node) '' > '' in
      case on_type node of
        MeasureLeaf \<Rightarrow>
          (case fbp key of
             Some func \<Rightarrow>
               unifyNodes fbp ebp nodes (regIndex + 1)
                 (unified @
                    [\<lparr> registrationIndex = regIndex, pathKey = keyPath (on_path node),
                       title = on_title node, payload = MeasureItem func \<rparr>])
           | None \<Rightarrow> unifyNodes fbp ebp nodes regIndex unified)
      | EvaluateLeaf \<Rightarrow>
          (case ebp key of
             Some customEval \<Rightarrow>
               unifyNodes fbp ebp nodes (regIndex + 1)
                 (unified @
                    [\<lparr> registrationIndex = regIndex, pathKey = keyPath (on_path node),
                       title = on_title node, payload = EvaluateItem customEval \<rparr>])
           | None \<Rightarrow> unifyNodes fbp ebp nodes regIndex unified))"

definition unifiedItems :: "registry \<Rightarrow> MeasurementConfig \<Rightarrow> UnifiedItem list" where
  "unifiedItems reg config =
     unifyNodes
       (functionByPath (filteredFunctions config (registeredFunctions reg)))
       (evalByPath (filteredEvals config (customEvaluations reg)))
       (traverseNode (rootNode reg) []) 0 []"

text \<open>
  Grouping by owner path key (\<^verbatim>\<open>has\<close>, \<^verbatim>\<open>set\<close> of an empty array, \<^verbatim>\<open>get\<close> and
  \<^verbatim>\<open>push\<close>), then the sort of every group by registration index.
\<close>

definition groupByPathKey :: "UnifiedItem list \<Rightarrow> (string option \<rightharpoonup> UnifiedItem list)" where
  "groupByPathKey items =
     fold (\<lambda>item m.
             case m (pathKey item) of
               None \<Rightarrow> m(pathKey item \<mapsto> [item])
             | Some bucket \<Rightarrow> m(pathKey item \<mapsto> bucket @ [item]))
          items Map.empty"

definition itemsByPathKey :: "UnifiedItem list \<Rightarrow> (string option \<rightharpoonup> UnifiedItem list)" where
  "itemsByPathKey items =
     (\<lambda>key. map_option (sort_key registrationIndex) (groupByPathKey items key))"

text \<open>The path keys in order of first appearance, with the set of keys seen so far.\<close>

fun collectPathKeys ::
  "UnifiedItem list \<Rightarrow> string option set \<Rightarrow> string option list \<Rightarrow> string option list"
where
  "collectPathKeys [] seenPathKeys allKeys = allKeys"
| "collectPathKeys (item # items) seenPathKeys allKeys =
     (if pathKey item \<notin> seenPathKeys
      then collectPathKeys items (insert (pathKey item) seenPathKeys) (allKeys @ [pathKey item])
      else collectPathKeys items seenPathKeys allKeys)"

definition allPathKeys :: "UnifiedItem list \<Rightarrow> string option list" where
  "allPathKeys items = collectPathKeys items {} []"

text \<open>\<^verbatim>\<open>itemsByPathKey.get(pathKey) || []\<close>.\<close>

definition itemsOf :: "(string option \<rightharpoonup> UnifiedItem list) \<Rightarrow> string option \<Rightarrow> UnifiedItem list" where
  "itemsOf byKey key = (case byKey key of Some items \<Rightarrow> items | None \<Rightarrow> [])"

definition totalSteps :: "nat list \<Rightarrow> UnifiedItem list \<Rightarrow> nat" where
  "totalSteps sizes items =
     (let dataUnitSizesSum = foldl (+) 0 sizes
      in foldl (\<lambda>acc key. acc + dataUnitSizesSum * length (itemsOf (itemsByPathKey items) key))
           0 (allPathKeys items))"


section \<open>The engine, the environment and the trace of a run\<close>

record engine =
  stopRequested :: bool
  skippedSubGroups :: "string set"

definition stop :: "'a engine_scheme \<Rightarrow> 'a engine_scheme" where
  "stop e = e\<lparr> stopRequested := True \<rparr>"

definition skipPathKey :: "string \<Rightarrow> 'a engine_scheme \<Rightarrow> 'a engine_scheme" where
  "skipPathKey key e = e\<lparr> skippedSubGroups := insert key (skippedSubGroups e) \<rparr>"

definition skipSubGroup :: "string \<Rightarrow> string \<Rightarrow> 'a engine_scheme \<Rightarrow> 'a engine_scheme" where
  "skipSubGroup grp subGrp e =
     e\<lparr> skippedSubGroups := insert (grp @ ''-'' @ subGrp) (skippedSubGroups e) \<rparr>"

text \<open>
  \<^verbatim>\<open>runMeasurements\<close> is asynchronous: while it is suspended at an \<^verbatim>\<open>await\<close>, and
  inside the observer callback, other code can call the control methods of the engine.
\<close>

datatype engineCall = StopCall | SkipPathKeyCall string | SkipSubGroupCall string string

datatype error = Thrown string

text \<open>
  What a run does that can be seen from outside, in order: the calls of data generators
  and target functions (with whether the call returned), the inter-series waits, the
  progress events handed to the observer, and the control calls that reached the engine.
\<close>

datatype obs =
    GeneratorCall nat nat bool
  | TargetCall nat bool
  | Wait nat
  | Emitted MeasurementProgress
  | Received engineCall

text \<open>
  The state a run threads: the two fields of the engine, the outside world, the trace so
  far and the local counter \<^verbatim>\<open>currentStep\<close>.
\<close>

record 'w run = engine +
  world :: 'w
  trace :: "obs list"
  currentStep :: nat

text \<open>
  The environment: what a call of a generator or of a target function does to the world
  and returns (\<open>Inl\<close> when it throws, or when the promise of an asynchronous target is
  rejected), the time and memory probes, the collection hint, the control calls made
  while the run is suspended, and the observer, which may make control calls too and is
  taken to return normally.
\<close>

record ('w, 'd) env =
  generate :: "nat \<Rightarrow> nat \<Rightarrow> 'w \<Rightarrow> (error + 'd) \<times> 'w"
  invoke :: "nat \<Rightarrow> 'd option \<Rightarrow> 'w \<Rightarrow> (error + rat) \<times> 'w"
  getTime :: "'w \<Rightarrow> rat \<times> 'w"
  getMemoryUsage :: "'w \<Rightarrow> rat \<times> 'w"
  runGC :: "'w \<Rightarrow> 'w"
  resume :: "'w \<Rightarrow> engineCall list \<times> 'w"
  onProgress :: "MeasurementProgress \<Rightarrow> 'w \<Rightarrow> engineCall list \<times> 'w"

text \<open>Sequencing: an exception of the first part skips the rest and is passed on.\<close>

definition bindR ::
  "(error + 'a) \<times> 's \<Rightarrow> ('a \<Rightarrow> 's \<Rightarrow> (error + 'b) \<times> 's) \<Rightarrow> (error + 'b) \<times> 's" where
  "bindR m k = (case m of (Inl e, s) \<Rightarrow> (Inl e, s) | (Inr v, s) \<Rightarrow> k v s)"

definition perform :: "engineCall \<Rightarrow> 'w run \<Rightarrow> 'w run" where
  "perform c s =
     (case c of
        StopCall \<Rightarrow> stop s
      | SkipPathKeyCall key \<Rightarrow> skipPathKey key s
      | SkipSubGroupCall grp subGrp \<Rightarrow> skipSubGroup grp subGrp s)
     \<lparr> trace := trace s @ [Received c] \<rparr>"

definition performAll :: "engineCall list \<Rightarrow> 'w run \<Rightarrow> 'w run" where
  "performAll calls s = fold perform calls s"

text \<open>An \<^verbatim>\<open>await\<close> that completes: the control calls made meanwhile take effect.\<close>

definition suspend :: "('w, 'd) env \<Rightarrow> 'w run \<Rightarrow> 'w run" where
  "suspend env s =
     (case resume env (world s) of (calls, w) \<Rightarrow> performAll calls (s\<lparr> world := w \<rparr>))"

definition awaited ::
  "('w, 'd) env \<Rightarrow> (error + 'a) \<times> 'w run \<Rightarrow> (error + 'a) \<times> 'w run" where
  "awaited env m = bindR m (\<lambda>v s. (Inr v, suspend env s))"

text \<open>\<^verbatim>\<open>onProgress(...)\<close>.\<close>

definition emit :: "('w, 'd) env \<Rightarrow> MeasurementProgress \<Rightarrow> 'w run \<Rightarrow> 'w run" where
  "emit env ev s =
     (case onProgress env ev (world s) of
        (calls, w) \<Rightarrow> performAll calls (s\<lparr> world := w, trace := trace s @ [Emitted ev] \<rparr>))"

definition callGenerator ::
  "('w, 'd) env \<Rightarrow> nat \<Rightarrow> nat \<Rightarrow> 'w run \<Rightarrow> (error + 'd) \<times> 'w run" where
  "callGenerator env g dataSize s =
     (case generate env g dataSize (world s) of
        (Inl e, w) \<Rightarrow>
          (Inl e, s\<lparr> world := w, trace := trace s @ [GeneratorCall g dataSize False] \<rparr>)
      | (Inr d, w) \<Rightarrow>
          (Inr d, s\<lparr> world := w, trace := trace s @ [GeneratorCall g dataSize True] \<rparr>))"

definition callTarget ::
  "('w, 'd) env \<Rightarrow> nat \<Rightarrow> 'd option \<Rightarrow> 'w run \<Rightarrow> (error + rat) \<times> 'w run" where
  "callTarget env fn x s =
     (case invoke env fn x (world s) of
        (Inl e, w) \<Rightarrow> (Inl e, s\<lparr> world := w, trace := trace s @ [TargetCall fn False] \<rparr>)
      | (Inr v, w) \<Rightarrow> (Inr v, s\<lparr> world := w, trace := trace s @ [TargetCall fn True] \<rparr>))"

section \<open>Sampler\<close>

text \<open>
  \<^verbatim>\<open>data[i % count]\<close>: with \<^verbatim>\<open>count\<close> zero the index is \<^verbatim>\<open>NaN\<close> and the datum
  \<^verbatim>\<open>undefined\<close>.
\<close>

definition datumAt :: "'d list \<Rightarrow> nat \<Rightarrow> nat \<Rightarrow> 'd option" where
  "datumAt dataArray i cnt = (if cnt = 0 then None else elemAt dataArray (i mod cnt))"

text \<open>\<^verbatim>\<open>n >>> 0\<close> of a non-negative integer.\<close>

definition toUint32 :: "nat \<Rightarrow> nat" where
  "toUint32 n = n mod 2 ^ 32"

text \<open>
  The loop \<^verbatim>\<open>for (let i = 0; i < seriesSize>>>0; ++i)\<close> of \<^verbatim>\<open>measureSeries\<close> and
  \<^verbatim>\<open>measureSeriesAsync\<close>, at index \<open>i\<close> with \<open>k\<close> iterations to go; the asynchronous
  variant awaits every call.
\<close>

fun seriesCalls ::
  "('w, 'd) env \<Rightarrow> bool \<Rightarrow> nat \<Rightarrow> 'd list \<Rightarrow> nat \<Rightarrow> nat \<Rightarrow> nat \<Rightarrow> 'w run \<Rightarrow>
   (error + unit) \<times> 'w run"
where
  "seriesCalls env isAwaited fn dataArray cnt i 0 s = (Inr (), s)"
| "seriesCalls env isAwaited fn dataArray cnt i (Suc k) s =
     bindR (if isAwaited then awaited env (callTarget env fn (datumAt dataArray i cnt) s)
            else callTarget env fn (datumAt dataArray i cnt) s)
       (\<lambda>v s1. seriesCalls env isAwaited fn dataArray cnt (i + 1) k s1)"

definition timedSeries ::
  "('w, 'd) env \<Rightarrow> bool \<Rightarrow> nat \<Rightarrow> 'd list \<Rightarrow> nat \<Rightarrow> 'w run \<Rightarrow> (error + rat) \<times> 'w run" where
  "timedSeries env isAwaited seriesSz dataArray fn s =
     (let cnt = toUint32 (length dataArray) in
      case getTime env (world s) of
        (startTime, w0) \<Rightarrow>
          bindR (seriesCalls env isAwaited fn dataArray cnt 0 (toUint32 seriesSz)
                   (s\<lparr> world := w0 \<rparr>))
            (\<lambda>u s1. case getTime env (world s1) of
                       (endTime, w1) \<Rightarrow> (Inr (endTime - startTime), s1\<lparr> world := w1 \<rparr>)))"

definition measureSeries ::
  "('w, 'd) env \<Rightarrow> nat \<Rightarrow> 'd list \<Rightarrow> nat \<Rightarrow> 'w run \<Rightarrow> (error + rat) \<times> 'w run" where
  "measureSeries env seriesSz dataArray fn s = timedSeries env False seriesSz dataArray fn s"

definition measureSeriesAsync ::
  "('w, 'd) env \<Rightarrow> nat \<Rightarrow> 'd list \<Rightarrow> nat \<Rightarrow> 'w run \<Rightarrow> (error + rat) \<times> 'w run" where
  "measureSeriesAsync env seriesSz dataArray fn s = timedSeries env True seriesSz dataArray fn s"

text \<open>
  The loop of \<^verbatim>\<open>measureSeriesMemory\<close> and \<^verbatim>\<open>measureSeriesMemoryAsync\<close>: a collection
  hint, the probe, one call, the probe again, and the delta clamped at zero.
\<close>

fun memoryPasses ::
  "('w, 'd) env \<Rightarrow> bool \<Rightarrow> nat \<Rightarrow> 'd list \<Rightarrow> nat \<Rightarrow> nat \<Rightarrow> nat \<Rightarrow> rat list \<Rightarrow> 'w run \<Rightarrow>
   (error + rat list) \<times> 'w run"
where
  "memoryPasses env isAwaited fn dataArray cnt i 0 memories s = (Inr memories, s)"
| "memoryPasses env isAwaited fn dataArray cnt i (Suc k) memories s =
     (case getMemoryUsage env (runGC env (world s)) of
        (startMemory, w0) \<Rightarrow>
          bindR (if isAwaited
                 then awaited env (callTarget env fn (datumAt dataArray i cnt) (s\<lparr> world := w0 \<rparr>))
                 else callTarget env fn (datumAt dataArray i cnt) (s\<lparr> world := w0 \<rparr>))
            (\<lambda>v s1. case getMemoryUsage env (world s1) of
                       (endMemory, w1) \<Rightarrow>
                         memoryPasses env isAwaited fn dataArray cnt (i + 1) k
                           (memories @ [max 0 (endMemory - startMemory)])
                           (s1\<lparr> world := w1 \<rparr>)))"

definition measureSeriesMemory ::
  "('w, 'd) env \<Rightarrow> nat \<Rightarrow> 'd list \<Rightarrow> nat \<Rightarrow> 'w run \<Rightarrow> (error + rat list) \<times> 'w run" where
  "measureSeriesMemory env passes dataArray fn s =
     memoryPasses env False fn dataArray (toUint32 (length dataArray)) 0 (toUint32 passes) [] s"

definition measureSeriesMemoryAsync ::
  "('w, 'd) env \<Rightarrow> nat \<Rightarrow> 'd list \<Rightarrow> nat \<Rightarrow> 'w run \<Rightarrow> (error + rat list) \<times> 'w run" where
  "measureSeriesMemoryAsync env passes dataArray fn s =
     memoryPasses env True fn dataArray (toUint32 (length dataArray)) 0 (toUint32 passes) [] s"

section \<open>Run controller\<close>

text \<open>
  \<^verbatim>\<open>for (let i = 0; i < dataUnitsCount; i++) array.push(dataGenerator(dataSize))\<close>, with
  \<open>k\<close> iterations to go.
\<close>

fun generateData ::
  "('w, 'd) env \<Rightarrow> nat \<Rightarrow> nat \<Rightarrow> nat \<Rightarrow> 'd list \<Rightarrow> 'w run \<Rightarrow> (error + 'd list) \<times> 'w run"
where
  "generateData env g dataSize 0 dataArray s = (Inr dataArray, s)"
| "generateData env g dataSize (Suc k) dataArray s =
     bindR (callGenerator env g dataSize s)
       (\<lambda>d s1. generateData env g dataSize k (dataArray @ [d]) s1)"

text \<open>
  The series loop of a measure leaf, with \<open>k\<close> series to go: the stop flag is read before
  every series, and every series is followed by the awaited delay.
\<close>

fun runSeries ::
  "('w, 'd) env \<Rightarrow> runParams \<Rightarrow> RegisteredFunction \<Rightarrow> 'd list \<Rightarrow> nat \<Rightarrow> rat list \<Rightarrow> 'w run \<Rightarrow>
   (error + rat list) \<times> 'w run"
where
  "runSeries env params func dataArray 0 durations s = (Inr durations, s)"
| "runSeries env params func dataArray (Suc k) durations s =
     (if stopRequested s then (Inr durations, s)
      else
        let s0 = (if forceGC params then s\<lparr> world := runGC env (world s) \<rparr> else s) in
        bindR (if rf_isAsync func
               then awaited env (measureSeriesAsync env (seriesSize params) dataArray (rf_fn func) s0)
               else measureSeries env (seriesSize params) dataArray (rf_fn func) s0)
          (\<lambda>duration s1.
             runSeries env params func dataArray k (durations @ [duration])
               (suspend env (s1\<lparr> trace := trace s1 @ [Wait (delay params)] \<rparr>))))"

definition measureMemory ::
  "('w, 'd) env \<Rightarrow> runParams \<Rightarrow> RegisteredFunction \<Rightarrow> 'd list \<Rightarrow> 'w run \<Rightarrow>
   (error + rat list option) \<times> 'w run" where
  "measureMemory env params func dataArray s =
     (case memoryMeasurementsCount params of
        None \<Rightarrow> (Inr None, s)
      | Some passes \<Rightarrow>
          if passes > 0 then
            bindR (if rf_isAsync func
                   then awaited env (measureSeriesMemoryAsync env passes dataArray (rf_fn func) s)
                   else measureSeriesMemory env passes dataArray (rf_fn func) s)
              (\<lambda>memoryUsages s1. (Inr (Some memoryUsages), s1))
          else (Inr None, s))"

text \<open>One measure leaf at one data size.\<close>

definition runMeasureItem ::
  "('w, 'd) env \<Rightarrow> runParams \<Rightarrow> nat \<Rightarrow> 'd list option \<Rightarrow> nat \<Rightarrow> UnifiedItem \<Rightarrow>
   RegisteredFunction \<Rightarrow> 'w run \<Rightarrow> (error + unit) \<times> 'w run" where
  "runMeasureItem env params stepsTotal sharedDataArray dataSize item func s =
     bindR (case sharedDataArray of
              Some dataArray \<Rightarrow> (Inr dataArray, s)
            | None \<Rightarrow>
                generateData env (rf_dataGenerator func) dataSize (dataUnitsCount params) [] s)
       (\<lambda>dataArray s1.
          bindR (runSeries env params func dataArray (seriesCount params) [] s1)
            (\<lambda>durations s2.
               bindR (measureMemory env params func dataArray s2)
                 (\<lambda>memoryUsages s3.
                    let result = measurementResult (rf_path func) (title item) dataSize
                                   durations (seriesSize params) memoryUsages;
                        s4 = s3\<lparr> currentStep := currentStep s3 + dataSize \<rparr>;
                        progress = progressOf (currentStep s4) stepsTotal
                    in (Inr (),
                        emit env
                          \<lparr> ev_path = rf_path func, ev_title = title item,
                            ev_dataSize = dataSize, ev_progress = progress,
                            ev_result = Some result, ev_customResult = None \<rparr> s4))))"

text \<open>
  The two loops of an evaluate leaf: over the shared data array, or generating a datum
  for every call.
\<close>

fun evaluateShared ::
  "('w, 'd) env \<Rightarrow> nat \<Rightarrow> 'd list \<Rightarrow> rat list \<Rightarrow> 'w run \<Rightarrow> (error + rat list) \<times> 'w run"
where
  "evaluateShared env fn [] vals s = (Inr vals, s)"
| "evaluateShared env fn (d # rest) vals s =
     bindR (callTarget env fn (Some d) s)
       (\<lambda>v s1. evaluateShared env fn rest (vals @ [v]) s1)"

fun evaluateFresh ::
  "('w, 'd) env \<Rightarrow> CustomEvaluation \<Rightarrow> nat \<Rightarrow> nat \<Rightarrow> rat list \<Rightarrow> 'w run \<Rightarrow>
   (error + rat list) \<times> 'w run"
where
  "evaluateFresh env customEval dataSize 0 vals s = (Inr vals, s)"
| "evaluateFresh env customEval dataSize (Suc k) vals s =
     bindR (callGenerator env (ce_dataGenerator customEval) dataSize s)
       (\<lambda>d s1. bindR (callTarget env (ce_fn customEval) (Some d) s1)
                  (\<lambda>v s2. evaluateFresh env customEval dataSize k (vals @ [v]) s2))"

text \<open>One evaluate leaf at one data size.\<close>

definition runEvaluateItem ::
  "('w, 'd) env \<Rightarrow> runParams \<Rightarrow> nat \<Rightarrow> 'd list option \<Rightarrow> nat \<Rightarrow> UnifiedItem \<Rightarrow>
   CustomEvaluation \<Rightarrow> 'w run \<Rightarrow> (error + unit) \<times> 'w run" where
  "runEvaluateItem env params stepsTotal sharedDataArray dataSize item customEval s =
     bindR (case sharedDataArray of
              Some dataArray \<Rightarrow> evaluateShared env (ce_fn customEval) dataArray [] s
            | None \<Rightarrow> evaluateFresh env customEval dataSize (dataUnitsCount params) [] s)
       (\<lambda>vals s1.
          let result = customResult (ce_path customEval) (title item) dataSize vals
                         (ce_customChart customEval);
              s2 = s1\<lparr> currentStep := currentStep s1 + dataSize \<rparr>;
              progress = progressOf (currentStep s2) stepsTotal
          in (Inr (),
              emit env
                \<lparr> ev_path = ce_path customEval, ev_title = title item,
                  ev_dataSize = dataSize, ev_progress = progress,
                  ev_result = None, ev_customResult = Some result \<rparr> s2))"

definition runItem ::
  "('w, 'd) env \<Rightarrow> runParams \<Rightarrow> nat \<Rightarrow> 'd list option \<Rightarrow> nat \<Rightarrow> UnifiedItem \<Rightarrow> 'w run \<Rightarrow>
   (error + unit) \<times> 'w run" where
  "runItem env params stepsTotal sharedDataArray dataSize item s =
     (case payload item of
        EvaluateItem customEval \<Rightarrow>
          runEvaluateItem env params stepsTotal sharedDataArray dataSize item customEval s
      | MeasureItem func \<Rightarrow>
          runMeasureItem env params stepsTotal sharedDataArray dataSize item func s)"

text \<open>\<^verbatim>\<open>this.skippedSubGroups.has(pathKey)\<close>.\<close>

definition isSkipped :: "string option \<Rightarrow> 'w run \<Rightarrow> bool" where
  "isSkipped key s = (case key of None \<Rightarrow> False | Some k \<Rightarrow> k \<in> skippedSubGroups s)"

text \<open>The loop over the items of a group at one data size; a \<^verbatim>\<open>break\<close> ends it.\<close>

fun forItems ::
  "('w, 'd) env \<Rightarrow> runParams \<Rightarrow> nat \<Rightarrow> string option \<Rightarrow> 'd list option \<Rightarrow> nat \<Rightarrow>
   UnifiedItem list \<Rightarrow> 'w run \<Rightarrow> (error + unit) \<times> 'w run"
where
  "forItems env params stepsTotal key sharedDataArray dataSize [] s = (Inr (), s)"
| "forItems env params stepsTotal key sharedDataArray dataSize (item # items) s =
     (if stopRequested s then (Inr (), s)
      else if isSkipped key s then (Inr (), s)
      else bindR (runItem env params stepsTotal sharedDataArray dataSize item s)
             (\<lambda>u s1. forItems env params stepsTotal key sharedDataArray dataSize items s1))"

definition itemGenerator :: "UnifiedItem \<Rightarrow> nat" where
  "itemGenerator item =
     (case payload item of
        MeasureItem func \<Rightarrow> rf_dataGenerator func
      | EvaluateItem customEval \<Rightarrow> ce_dataGenerator customEval)"

text \<open>
  The loop over the data sizes of a group. A registered generator is a function, hence
  truthy, so the shared array is generated exactly when all items use the same generator.
\<close>

fun forDataSizes ::
  "('w, 'd) env \<Rightarrow> runParams \<Rightarrow> nat \<Rightarrow> string option \<Rightarrow> UnifiedItem list \<Rightarrow> nat \<Rightarrow> bool \<Rightarrow>
   nat list \<Rightarrow> 'w run \<Rightarrow> (error + unit) \<times> 'w run"
where
  "forDataSizes env params stepsTotal key items firstDataGenerator allUseSameGenerator [] s =
     (Inr (), s)"
| "forDataSizes env params stepsTotal key items firstDataGenerator allUseSameGenerator
     (dataSize # sizes) s =
     (if stopRequested s then (Inr (), s)
      else if isSkipped key s then (Inr (), s)
      else
        bindR (if allUseSameGenerator
               then bindR (generateData env firstDataGenerator dataSize
                             (dataUnitsCount params) [] s)
                      (\<lambda>dataArray s1. (Inr (Some dataArray), s1))
               else (Inr None, s))
          (\<lambda>sharedDataArray s1.
             bindR (forItems env params stepsTotal key sharedDataArray dataSize items s1)
               (\<lambda>u s2. forDataSizes env params stepsTotal key items firstDataGenerator
                          allUseSameGenerator sizes s2)))"

text \<open>The loop over the path keys: \<^verbatim>\<open>break\<close> on a stop, \<^verbatim>\<open>continue\<close> on a skip.\<close>

fun forPathKeys ::
  "('w, 'd) env \<Rightarrow> runParams \<Rightarrow> nat \<Rightarrow> (string option \<rightharpoonup> UnifiedItem list) \<Rightarrow>
   string option list \<Rightarrow> 'w run \<Rightarrow> (error + unit) \<times> 'w run"
where
  "forPathKeys env params stepsTotal byKey [] s = (Inr (), s)"
| "forPathKeys env params stepsTotal byKey (key # keys) s =
     (if stopRequested s then (Inr (), s)
      else
        case itemsOf byKey key of
          [] \<Rightarrow> forPathKeys env params stepsTotal byKey keys s
        | firstItem # others \<Rightarrow>
            if isSkipped key s then forPathKeys env params stepsTotal byKey keys s
            else
              let firstDataGenerator = itemGenerator firstItem;
                  allUseSameGenerator =
                    list_all (\<lambda>item. itemGenerator item = firstDataGenerator)
                      (firstItem # others)
              in bindR (forDataSizes env params stepsTotal key (firstItem # others)
                          firstDataGenerator allUseSameGenerator (dataUnitSizes params) s)
                   (\<lambda>u s1. forPathKeys env params stepsTotal byKey keys s1))"

text \<open>
  \<^verbatim>\<open>runMeasurements\<close>: the two resets, the plan, and the loops. The trace is that of
  this run.
\<close>

definition runMeasurements ::
  "('w, 'd) env \<Rightarrow> registry \<Rightarrow> MeasurementConfig \<Rightarrow> 'w run \<Rightarrow> (error + unit) \<times> 'w run" where
  "runMeasurements env reg config s =
     (let s0 = s\<lparr> stopRequested := False, skippedSubGroups := {}, trace := [] \<rparr>;
          params = applyOverrides config (globalSettings reg);
          items = unifiedItems reg config
      in forPathKeys env params (totalSteps (dataUnitSizes params) items)
           (itemsByPathKey items) (allPathKeys items) (s0\<lparr> currentStep := 0 \<rparr>))"

section \<open>Reading a trace\<close>

fun emitted :: "obs list \<Rightarrow> MeasurementProgress list" where
  "emitted [] = []"
| "emitted (Emitted ev # tr) = ev # emitted tr"
| "emitted (x # tr) = emitted tr"

fun received :: "obs list \<Rightarrow> engineCall list" where
  "received [] = []"
| "received (Received c # tr) = c # received tr"
| "received (x # tr) = received tr"

fun isFailedCall :: "obs \<Rightarrow> bool" where
  "isFailedCall (GeneratorCall g dataSize ok) = (\<not> ok)"
| "isFailedCall (TargetCall fn ok) = (\<not> ok)"
| "isFailedCall x = False"

fun isGeneratorCall :: "obs \<Rightarrow> bool" where
  "isGeneratorCall (GeneratorCall g dataSize ok) = True"
| "isGeneratorCall x = False"

definition generatorCalls :: "obs list \<Rightarrow> nat" where
  "generatorCalls tr = length (filter isGeneratorCall tr)"

text \<open>The shape of a progress event: the path, the title and the data size.\<close>

definition shapeOf :: "MeasurementProgress \<Rightarrow> string list option \<times> string \<times> nat" where
  "shapeOf ev = (ev_path ev, ev_title ev, ev_dataSize ev)"


fun skipKeyOf :: "engineCall \<Rightarrow> string set" where
  "skipKeyOf StopCall = {}"
| "skipKeyOf (SkipPathKeyCall key) = {key}"
| "skipKeyOf (SkipSubGroupCall grp subGrp) = {grp @ ''-'' @ subGrp}"

definition skipKeys :: "engineCall list \<Rightarrow> string set" where
  "skipKeys calls = (\<Union>c \<in> set calls. skipKeyOf c)"

text \<open>
  How a part of a run relates the state before to the state after, whatever the
  environment does: the trace only grows, by \<open>ext\<close>; the stop flag and the skip set change
  only through the control calls received in \<open>ext\<close>; \<^verbatim>\<open>currentStep\<close> grows by the data
  sizes of the events emitted in \<open>ext\<close>; and the part throws exactly when its last call
  failed, no earlier call having failed.
\<close>

definition step :: "(error + 'a) \<Rightarrow> 'w run \<Rightarrow> 'w run \<Rightarrow> bool" where
  "step r s s' =
     (\<exists>ext. trace s' = trace s @ ext \<and>
        stopRequested s' = (stopRequested s \<or> StopCall \<in> set (received ext)) \<and>
        skippedSubGroups s' = skippedSubGroups s \<union> skipKeys (received ext) \<and>
        currentStep s' = currentStep s + sum_list (map ev_dataSize (emitted ext)) \<and>
        (case r of
           Inr v \<Rightarrow> \<not> list_ex isFailedCall ext
         | Inl e \<Rightarrow> ext \<noteq> [] \<and> isFailedCall (last ext) \<and> \<not> list_ex isFailedCall (butlast ext)))"

section \<open>Concrete scenarios\<close>

text \<open>
  An environment in which nothing throws and no control call is made: a generator returns
  its size argument as the datum, a target returns 0, and the clock advances by one
  millisecond at every reading.
\<close>

definition quietEnv :: "(nat, nat) env" where
  "quietEnv =
     \<lparr> generate = (\<lambda>g dataSize w. (Inr dataSize, w)),
       invoke = (\<lambda>fn x w. (Inr 0, w)),
       getTime = (\<lambda>w. (of_nat w, w + 1)),
       getMemoryUsage = (\<lambda>w. (0, w)),
       runGC = (\<lambda>w. w),
       resume = (\<lambda>w. ([], w)),
       onProgress = (\<lambda>ev w. ([], w)) \<rparr>"

definition idle :: "nat run" where
  "idle = \<lparr> stopRequested = False, skippedSubGroups = {}, world = 0, trace = [],
            currentStep = 0 \<rparr>"

definition noSettings :: MeasureSettings where
  "noSettings =
     \<lparr> st_port = None, st_dataUnitSizes = None, st_dataUnitsCount = None,
       st_seriesSize = None, st_seriesCount = None, st_delay = None, st_forceGC = None,
       st_memoryMeasurementsCount = None \<rparr>"

text \<open>
  Scenario A: one group \<open>G\<close> with two measure leaves \<open>a\<close> and \<open>b\<close> that share the
  generator 7, one data size 10, five data units, one series of one call.
\<close>

definition leafA :: RegisteredFunction where
  "leafA = \<lparr> rf_group = ''G'', rf_subGroup = ''G'', rf_title = ''a'', rf_fn = 1,
             rf_dataGenerator = 7, rf_isAsync = False, rf_path = Some [''G'', ''a''] \<rparr>"

definition leafB :: RegisteredFunction where
  "leafB = \<lparr> rf_group = ''G'', rf_subGroup = ''G'', rf_title = ''b'', rf_fn = 2,
             rf_dataGenerator = 7, rf_isAsync = False, rf_path = Some [''G'', ''b''] \<rparr>"

definition registryA :: registry where
  "registryA =
     \<lparr> registeredFunctions = [leafA, leafB], customEvaluations = [],
       globalSettings = noSettings,
       rootNode = DescribeNode ''__root__'' []
         [DescribeNode ''G'' [''G'']
            [MeasureNode ''a'' [''G'', ''a''], MeasureNode ''b'' [''G'', ''b'']]] \<rparr>"

definition configA :: MeasurementConfig where
  "configA =
     \<lparr> cf_selectedPaths = None, cf_dataUnitSizes = Some [10], cf_dataUnitsCount = Some 5,
       cf_seriesSize = Some 1, cf_seriesCount = Some 1, cf_delay = None, cf_forceGC = None,
       cf_memoryMeasurementsCount = None \<rparr>"





text \<open>
  A part of a run that hands nothing to the observer: the emitted events stay as they
  are, and when the part returns it has called data generators \<open>n\<close> times.
\<close>

definition quiet :: "nat \<Rightarrow> (error + 'a) \<Rightarrow> 'w run \<Rightarrow> 'w run \<Rightarrow> bool" where
  "quiet n r s s' =
     (emitted (trace s') = emitted (trace s) \<and>
      (case r of
         Inr v \<Rightarrow> generatorCalls (trace s') = generatorCalls (trace s) + n
       | Inl e \<Rightarrow> True))"

text \<open>The path an item reports, and the shape of its event at a data size.\<close>

definition itemPath :: "UnifiedItem \<Rightarrow> string list option" where
  "itemPath item =
     (case payload item of
        MeasureItem func \<Rightarrow> rf_path func
      | EvaluateItem customEval \<Rightarrow> ce_path customEval)"

definition unitShape :: "UnifiedItem \<Rightarrow> nat \<Rightarrow> string list option \<times> string \<times> nat" where
  "unitShape item dataSize = (itemPath item, title item, dataSize)"

text \<open>What one item at one data size adds to the trace.\<close>

definition itemOutcome ::
  "runParams \<Rightarrow> nat \<Rightarrow> 'd list option \<Rightarrow> nat \<Rightarrow> UnifiedItem \<Rightarrow> (error + unit) \<Rightarrow>
   'w run \<Rightarrow> 'w run \<Rightarrow> bool" where
  "itemOutcome params stepsTotal sharedDataArray dataSize item r s s' =
     (case r of
        Inl e \<Rightarrow> emitted (trace s') = emitted (trace s)
      | Inr u \<Rightarrow>
          (\<exists>ev. emitted (trace s') = emitted (trace s) @ [ev] \<and>
                shapeOf ev = unitShape item dataSize \<and>
                ev_progress ev = progressOf (currentStep s + dataSize) stepsTotal) \<and>
          generatorCalls (trace s') =
            generatorCalls (trace s) +
            (case sharedDataArray of Some dataArray \<Rightarrow> 0 | None \<Rightarrow> dataUnitsCount params))"

text \<open>
  The generator calls a run makes for one group when nothing interrupts it: per data size
  one array for the group if all its items use the generator of the first, else one array
  per item.
\<close>

definition groupGeneratorCalls :: "runParams \<Rightarrow> UnifiedItem list \<Rightarrow> nat" where
  "groupGeneratorCalls params grp =
     (case grp of
        [] \<Rightarrow> 0
      | firstItem # others \<Rightarrow>
          length (dataUnitSizes params) *
          (if list_all (\<lambda>item. itemGenerator item = itemGenerator firstItem) grp
           then dataUnitsCount params
           else length grp * dataUnitsCount params))"

section \<open>The plan in the words of the specification\<close>

text \<open>The leaves of the hierarchy, depth first, children in declaration order.\<close>

fun leaves :: "TestNode \<Rightarrow> orderedNode list" where
  "leaves (MeasureNode ttl path) =
     [\<lparr> on_type = MeasureLeaf, on_path = path, on_title = ttl \<rparr>]"
| "leaves (EvaluateNode ttl path) =
     [\<lparr> on_type = EvaluateLeaf, on_path = path, on_title = ttl \<rparr>]"
| "leaves (DescribeNode ttl path children) = concat (map leaves children)"

text \<open>The distinct elements of a list in order of first appearance.\<close>

fun firstOccurrences :: "'a list \<Rightarrow> 'a list" where
  "firstOccurrences [] = []"
| "firstOccurrences (x # xs) = x # firstOccurrences (filter (\<lambda>y. y \<noteq> x) xs)"

text \<open>
  The traversal order of the units of work: for each owner path key in order of first
  appearance, for each configured data size in configured order, for each item of that
  key in plan order.
\<close>

definition plannedUnits :: "UnifiedItem list \<Rightarrow> nat list \<Rightarrow> (UnifiedItem \<times> nat) list" where
  "plannedUnits items sizes =
     [(item, dataSize).
        key \<leftarrow> firstOccurrences (map pathKey items),
        dataSize \<leftarrow> sizes,
        item \<leftarrow> items, pathKey item = key]"

text \<open>Scenario A with the data size 10 configured twice.\<close>

definition configTwice :: MeasurementConfig where
  "configTwice = configA\<lparr> cf_dataUnitSizes := Some [10, 10] \<rparr>"

text \<open>Whether a leaf of the hierarchy enters the plan: its joined path must be in the lookup map of its kind.\<close>

definition isPlanned ::
  "(string \<rightharpoonup> RegisteredFunction) \<Rightarrow> (string \<rightharpoonup> CustomEvaluation) \<Rightarrow> orderedNode \<Rightarrow> bool" where
  "isPlanned fbp ebp node =
     (case on_type node of
        MeasureLeaf \<Rightarrow> fbp (join (on_path node) '' > '') \<noteq> None
      | EvaluateLeaf \<Rightarrow> ebp (join (on_path node) '' > '') \<noteq> None)"

text \<open>
  A second scenario: the groups \<open>G\<close> (leaves \<open>a\<close> and \<open>b\<close>, sharing a generator) and \<open>H\<close>
  (leaf \<open>c\<close>), the data sizes 10 and 20, two data units, one series of one call.
\<close>

definition leafC :: RegisteredFunction where
  "leafC = \<lparr> rf_group = ''H'', rf_subGroup = ''H'', rf_title = ''c'', rf_fn = 3,
             rf_dataGenerator = 8, rf_isAsync = False, rf_path = Some [''H'', ''c''] \<rparr>"

definition registryGH :: registry where
  "registryGH =
     \<lparr> registeredFunctions = [leafA, leafB, leafC], customEvaluations = [],
       globalSettings = noSettings,
       rootNode = DescribeNode ''__root__'' []
         [DescribeNode ''G'' [''G'']
            [MeasureNode ''a'' [''G'', ''a''], MeasureNode ''b'' [''G'', ''b'']],
          DescribeNode ''H'' [''H''] [MeasureNode ''c'' [''H'', ''c'']]] \<rparr>"

definition configGH :: MeasurementConfig where
  "configGH =
     \<lparr> cf_selectedPaths = None, cf_dataUnitSizes = Some [10, 20], cf_dataUnitsCount = Some 2,
       cf_seriesSize = Some 1, cf_seriesCount = Some 1, cf_delay = None, cf_forceGC = None,
       cf_memoryMeasurementsCount = None \<rparr>"


text \<open>
  An environment for the second scenario in which \<^verbatim>\<open>skipPathKey("H")\<close> is called at
  every suspension of the run, the first time during the delay after the first series.
\<close>

definition skippingEnv :: "(nat, nat) env" where
  "skippingEnv = quietEnv\<lparr> resume := (\<lambda>w. ([SkipPathKeyCall ''H''], w)) \<rparr>"

text \<open>
  Scenario E: the third invocation of a target function throws. The world counts the
  target invocations made so far; every leaf runs one series of two calls.
\<close>

definition throwingEnv :: "(nat, nat) env" where
  "throwingEnv =
     \<lparr> generate = (\<lambda>g dataSize w. (Inr dataSize, w)),
       invoke = (\<lambda>fn x w. (if w = 2 then Inl (Thrown ''third call'') else Inr 0, w + 1)),
       getTime = (\<lambda>w. (0, w)),
       getMemoryUsage = (\<lambda>w. (0, w)),
       runGC = (\<lambda>w. w),
       resume = (\<lambda>w. ([], w)),
       onProgress = (\<lambda>ev w. ([], w)) \<rparr>"

definition configE :: MeasurementConfig where
  "configE = configA\<lparr> cf_seriesSize := Some 2 \<rparr>"

text \<open>
  The events a run emits once a call of \<^verbatim>\<open>stop()\<close> has reached the engine.
\<close>

definition afterStop :: "obs list \<Rightarrow> MeasurementProgress list" where
  "afterStop tr = emitted (dropWhile (\<lambda>x. x \<noteq> Received StopCall) tr)"

text \<open>The stop flag says whether a call of \<^verbatim>\<open>stop()\<close> is in the trace of the run.\<close>

definition stopTracked :: "'w run \<Rightarrow> bool" where
  "stopTracked s = (stopRequested s = (StopCall \<in> set (received (trace s))))"

text \<open>
  A scenario for stopping: Scenario A with the leaf \<open>a\<close> registered as asynchronous and
  three series per leaf, in an environment where \<^verbatim>\<open>stop()\<close> is called while the run
  awaits the first call of the target. The world counts the suspensions.
\<close>

definition leafAsync :: RegisteredFunction where
  "leafAsync = leafA\<lparr> rf_isAsync := True \<rparr>"

definition registryAsync :: registry where
  "registryAsync = registryA\<lparr> registeredFunctions := [leafAsync, leafB] \<rparr>"

definition configS :: MeasurementConfig where
  "configS = configA\<lparr> cf_seriesCount := Some 3 \<rparr>"

definition stoppingEnv :: "(nat, nat) env" where
  "stoppingEnv =
     quietEnv\<lparr> getTime := (\<lambda>w. (0, w)),
               resume := (\<lambda>w. (if w = 0 then [StopCall] else [], w + 1)) \<rparr>"

fun isWait :: "obs \<Rightarrow> bool" where
  "isWait (Wait d) = True"
| "isWait x = False"

text \<open>The inter-series waits a run makes once a call of \<^verbatim>\<open>stop()\<close> has reached the engine.\<close>

definition waitsAfterStop :: "obs list \<Rightarrow> obs list" where
  "waitsAfterStop tr = filter isWait (dropWhile (\<lambda>x. x \<noteq> Received StopCall) tr)"

text \<open>The number of series behind every measure result among some events.\<close>

definition seriesLengths :: "MeasurementProgress list \<Rightarrow> nat option list" where
  "seriesLengths evs = map (\<lambda>ev. map_option (\<lambda>res. length (mr_series res)) (ev_result ev)) evs"

text \<open>
  An environment in which \<^verbatim>\<open>skipPathKey("G")\<close> is called at every suspension of the run.
\<close>

definition midSkipEnv :: "(nat, nat) env" where
  "midSkipEnv = quietEnv\<lparr> resume := (\<lambda>w. ([SkipPathKeyCall ''G''], w)) \<rparr>"

section \<open>Properties of the path matcher\<close>

declare matchLevels.simps [simp del]

lemma matchLevels_end: "\<not> i < length pattern \<Longrightarrow> matchLevels path pattern i"
  by (subst matchLevels.simps) simp

lemma matchLevels_step:
  "i < length pattern \<Longrightarrow>
   matchLevels path pattern i =
     (filterAccepts (pattern ! i) (elemAt path i) \<and> matchLevels path pattern (Suc i))"
  by (subst matchLevels.simps) (auto simp: filterAccepts_def Let_def split: pathFilter.splits)

lemma matchLevels_iff:
  "matchLevels path pattern i =
     (\<forall>j. i \<le> j \<and> j < length pattern \<longrightarrow> filterAccepts (pattern ! j) (elemAt path j))"
proof (induction "length pattern - i" arbitrary: i)
  case 0
  then have "\<not> i < length pattern" by simp
  then show ?case using matchLevels_end [of i pattern path] by auto
next
  case (Suc n)
  then have lt: "i < length pattern" and n: "n = length pattern - Suc i" by simp_all
  have ih: "matchLevels path pattern (Suc i) =
     (\<forall>j. Suc i \<le> j \<and> j < length pattern \<longrightarrow> filterAccepts (pattern ! j) (elemAt path j))"
    using Suc.hyps(1) [OF n] .
  have "(\<forall>j. i \<le> j \<and> j < length pattern \<longrightarrow> filterAccepts (pattern ! j) (elemAt path j)) =
      (filterAccepts (pattern ! i) (elemAt path i) \<and>
       (\<forall>j. Suc i \<le> j \<and> j < length pattern \<longrightarrow> filterAccepts (pattern ! j) (elemAt path j)))"
    (is "?L = (?H \<and> ?R)")
  proof
    assume l: ?L
    show "?H \<and> ?R" using l lt by auto
  next
    assume hr: "?H \<and> ?R"
    show ?L
    proof (intro allI impI)
      fix j assume j: "i \<le> j \<and> j < length pattern"
      show "filterAccepts (pattern ! j) (elemAt path j)"
      proof (cases "j = i")
        case True then show ?thesis using hr by simp
      next
        case False
        then have "Suc i \<le> j" using j by simp
        then show ?thesis using hr j by blast
      qed
    qed
  qed
  then show ?case using matchLevels_step [OF lt, of path] ih by simp
qed

lemma matchesPathPattern_iff:
  "matchesPathPattern path pattern =
     (length pattern \<le> length path \<and>
      (\<forall>i<length pattern. filterAccepts (pattern ! i) (elemAt path i)))"
  by (auto simp: matchesPathPattern_def matchLevels_iff)

text \<open>
  Claim C4. For every path \<open>X\<close> and pattern \<open>P\<close>, \<^verbatim>\<open>matchesPathPattern\<close> is false when
  \<open>P\<close> has more entries than \<open>X\<close>, true when \<open>P\<close> is empty, and otherwise true exactly when
  at every index \<open>i\<close> below the length of \<open>P\<close> the filter \<open>P[i]\<close> is \<^verbatim>\<open>undefined\<close>, or is a
  string equal to \<open>X[i]\<close>, or is an array containing \<open>X[i]\<close>: a pattern shorter than the
  path constrains a prefix of it.
\<close>

theorem matchesPathPattern_spec:
  "(length P > length X \<longrightarrow> \<not> matchesPathPattern X P) \<and>
   matchesPathPattern X [] \<and>
   (length P \<le> length X \<longrightarrow>
      matchesPathPattern X P =
        (\<forall>i<length P. P ! i = MatchAny \<or> P ! i = Exact (X ! i) \<or>
            (\<exists>ss. P ! i = OneOf ss \<and> X ! i \<in> set ss)))"
proof -
  have a: "length P > length X \<longrightarrow> \<not> matchesPathPattern X P"
    by (simp add: matchesPathPattern_def)
  have b: "matchesPathPattern X []"
    by (simp add: matchesPathPattern_iff)
  have c: "length P \<le> length X \<longrightarrow>
      matchesPathPattern X P =
        (\<forall>i<length P. P ! i = MatchAny \<or> P ! i = Exact (X ! i) \<or>
            (\<exists>ss. P ! i = OneOf ss \<and> X ! i \<in> set ss))"
  proof
    assume le: "length P \<le> length X"
    have "\<And>i. i < length P \<Longrightarrow> filterAccepts (P ! i) (elemAt X i) =
        (P ! i = MatchAny \<or> P ! i = Exact (X ! i) \<or> (\<exists>ss. P ! i = OneOf ss \<and> X ! i \<in> set ss))"
      using le by (auto simp: filterAccepts_def elemAt_def arrayIncludes_def split: pathFilter.splits)
    then show "matchesPathPattern X P =
        (\<forall>i<length P. P ! i = MatchAny \<or> P ! i = Exact (X ! i) \<or>
            (\<exists>ss. P ! i = OneOf ss \<and> X ! i \<in> set ss))"
      using le by (simp add: matchesPathPattern_iff)
  qed
  from a b c show ?thesis by blast
qed

theorem matchesPathPattern_spec_witness:
  "\<not> matchesPathPattern [''Encoding''] [MatchAny, Exact ''Binary''] \<and>
   matchesPathPattern [''Encoding'', ''Binary'', ''y''] [] \<and>
   matchesPathPattern [''Encoding'', ''Binary'', ''y''] [MatchAny, OneOf [''JSON'', ''Binary'']] \<and>
   \<not> matchesPathPattern [''Encoding'', ''JSON'', ''x''] [MatchAny, Exact ''Binary'']"
  using matchesPathPattern_spec [where P = "[MatchAny, Exact ''Binary'']" and X = "[''Encoding'']"]
    matchesPathPattern_spec [where P = "[]" and X = "[''Encoding'', ''Binary'', ''y'']"]
    matchesPathPattern_spec [where P = "[MatchAny, OneOf [''JSON'', ''Binary'']]"
      and X = "[''Encoding'', ''Binary'', ''y'']"]
    matchesPathPattern_spec [where P = "[MatchAny, Exact ''Binary'']"
      and X = "[''Encoding'', ''JSON'', ''x'']"]
  by (simp add: less_Suc_eq)

section \<open>What every part of a run preserves\<close>

lemma bindR_E:
  assumes "bindR m k = (r, s')"
  obtains (throws) e where "m = (Inl e, s')" and "r = Inl e"
        | (returns) v s1 where "m = (Inr v, s1)" and "k v s1 = (r, s')"
  using assms by (auto simp: bindR_def split: prod.splits sum.splits)

lemma bindR_Inl [simp]: "bindR (Inl e, s) k = (Inl e, s)"
  by (simp add: bindR_def)

lemma bindR_Inr [simp]: "bindR (Inr v, s) k = k v s"
  by (simp add: bindR_def)

lemma emitted_append [simp]: "emitted (xs @ ys) = emitted xs @ emitted ys"
  by (induction xs rule: emitted.induct) auto

lemma received_append [simp]: "received (xs @ ys) = received xs @ received ys"
  by (induction xs rule: received.induct) auto

lemma skipKeys_simps [simp]:
  "skipKeys [] = {}"
  "skipKeys (c # cs) = skipKeyOf c \<union> skipKeys cs"
  "skipKeys (xs @ ys) = skipKeys xs \<union> skipKeys ys"
  by (auto simp: skipKeys_def)

lemma step_refl [simp]: "step (Inr v) s s"
  by (simp add: step_def)

lemma step_trans:
  assumes "step (Inr u) s s1" and "step r s1 s2"
  shows "step r s s2"
proof -
  from assms(1) obtain e1 where e1: "trace s1 = trace s @ e1"
    "stopRequested s1 = (stopRequested s \<or> StopCall \<in> set (received e1))"
    "skippedSubGroups s1 = skippedSubGroups s \<union> skipKeys (received e1)"
    "currentStep s1 = currentStep s + sum_list (map ev_dataSize (emitted e1))"
    "\<not> list_ex isFailedCall e1"
    by (auto simp: step_def)
  from assms(2) obtain e2 where e2: "trace s2 = trace s1 @ e2"
    "stopRequested s2 = (stopRequested s1 \<or> StopCall \<in> set (received e2))"
    "skippedSubGroups s2 = skippedSubGroups s1 \<union> skipKeys (received e2)"
    "currentStep s2 = currentStep s1 + sum_list (map ev_dataSize (emitted e2))"
    "case r of Inr v \<Rightarrow> \<not> list_ex isFailedCall e2
       | Inl e \<Rightarrow> e2 \<noteq> [] \<and> isFailedCall (last e2) \<and> \<not> list_ex isFailedCall (butlast e2)"
    by (auto simp: step_def)
  have "case r of Inr v \<Rightarrow> \<not> list_ex isFailedCall (e1 @ e2)
       | Inl e \<Rightarrow> e1 @ e2 \<noteq> [] \<and> isFailedCall (last (e1 @ e2)) \<and>
                  \<not> list_ex isFailedCall (butlast (e1 @ e2))"
    using e1(5) e2(5) by (cases r) (auto simp: butlast_append list_ex_iff)
  then show ?thesis
    unfolding step_def using e1(1-4) e2(1-4)
    by (intro exI [of _ "e1 @ e2"]) auto
qed

lemma step_Inl_any: "step (Inl e :: error + 'a) s s' \<Longrightarrow> step (Inl e' :: error + 'b) s s'"
  by (simp add: step_def)

lemma perform_step: "step (Inr v) s (perform c s)"
  unfolding step_def
  by (rule exI [of _ "[Received c]"])
     (cases c; simp add: perform_def stop_def skipPathKey_def skipSubGroup_def)

lemma performAll_step: "step (Inr v) s (performAll calls s)"
proof (induction calls arbitrary: s)
  case Nil
  then show ?case by (simp add: performAll_def)
next
  case (Cons c calls)
  have "step (Inr v) s (perform c s)" by (rule perform_step)
  moreover have "step (Inr v) (perform c s) (performAll calls (perform c s))" by (rule Cons.IH)
  ultimately show ?case using step_trans by (fastforce simp: performAll_def)
qed

lemma world_step: "step (Inr v) s (s\<lparr> world := w \<rparr>)"
  by (simp add: step_def)

lemma suspend_step: "step (Inr v) s (suspend env s)"
proof -
  obtain calls w where r: "resume env (world s) = (calls, w)" by (cases "resume env (world s)")
  have "step (Inr v) s (s\<lparr> world := w \<rparr>)" by (rule world_step)
  moreover have "step (Inr v) (s\<lparr> world := w \<rparr>) (performAll calls (s\<lparr> world := w \<rparr>))"
    by (rule performAll_step)
  ultimately show ?thesis using r step_trans by (fastforce simp: suspend_def)
qed

lemma emit_step:
  assumes "ev_dataSize ev = n"
  shows "step (Inr v) s (emit env ev (s\<lparr> currentStep := currentStep s + n \<rparr>))"
proof -
  obtain calls w where r: "onProgress env ev (world s) = (calls, w)"
    by (cases "onProgress env ev (world s)")
  let ?t = "s\<lparr> currentStep := currentStep s + n, world := w, trace := trace s @ [Emitted ev] \<rparr>"
  have "step (Inr v) s ?t"
    unfolding step_def using assms by (intro exI [of _ "[Emitted ev]"]) simp
  moreover have "step (Inr v) ?t (performAll calls ?t)" by (rule performAll_step)
  ultimately show ?thesis using r step_trans by (fastforce simp: emit_def)
qed

lemma callGenerator_step: "callGenerator env g dataSize s = (r, s') \<Longrightarrow> step r s s'"
  by (auto simp: callGenerator_def step_def split: prod.splits sum.splits)

lemma callTarget_step: "callTarget env fn x s = (r, s') \<Longrightarrow> step r s s'"
  by (auto simp: callTarget_def step_def split: prod.splits sum.splits)

lemma bindR_step:
  assumes "bindR m k = (r, s')"
    and "\<And>r1 s1. m = (r1, s1) \<Longrightarrow> step r1 s s1"
    and "\<And>v s1. m = (Inr v, s1) \<Longrightarrow> k v s1 = (r, s') \<Longrightarrow> step r s1 s'"
  shows "step r s s'"
  using assms(1)
proof (cases rule: bindR_E)
  case (throws e)
  then show ?thesis using assms(2) [of "Inl e" s'] by (simp add: step_def)
next
  case (returns v s1)
  show ?thesis
    by (rule step_trans [OF assms(2) [OF returns(1)] assms(3) [OF returns]])
qed

lemma awaited_step:
  assumes "\<And>r s'. m = (r, s') \<Longrightarrow> step r s s'" and "awaited env m = (r, s')"
  shows "step r s s'"
proof (rule bindR_step [OF assms(2) [unfolded awaited_def]])
  fix r1 s1 assume "m = (r1, s1)"
  then show "step r1 s s1" by (rule assms(1))
next
  fix v s1 assume "(Inr v, suspend env s1) = (r, s')"
  then show "step r s1 s'" using suspend_step [of v s1 env] by auto
qed

lemma generateData_step:
  "generateData env g dataSize k dataArray s = (r, s') \<Longrightarrow> step r s s'"
proof (induction k arbitrary: dataArray s)
  case 0
  then show ?case by auto
next
  case (Suc k)
  from Suc.prems
  have b: "bindR (callGenerator env g dataSize s)
             (\<lambda>d s1. generateData env g dataSize k (dataArray @ [d]) s1) = (r, s')"
    by simp
  show ?case
    by (rule bindR_step [OF b]) (auto intro: callGenerator_step Suc.IH)
qed

lemma targetCall_step:
  "(if isAwaited then awaited env (callTarget env fn x s) else callTarget env fn x s) = (r, s')
   \<Longrightarrow> step r s s'"
  by (cases isAwaited) (auto intro: callTarget_step awaited_step)

lemma seriesCalls_step:
  "seriesCalls env isAwaited fn dataArray cnt i k s = (r, s') \<Longrightarrow> step r s s'"
proof (induction k arbitrary: i s)
  case 0
  then show ?case by auto
next
  case (Suc k)
  from Suc.prems
  have b: "bindR (if isAwaited then awaited env (callTarget env fn (datumAt dataArray i cnt) s)
                  else callTarget env fn (datumAt dataArray i cnt) s)
             (\<lambda>v s1. seriesCalls env isAwaited fn dataArray cnt (i + 1) k s1) = (r, s')"
    by simp
  show ?case
    by (rule bindR_step [OF b]) (auto intro: targetCall_step Suc.IH)
qed

lemma timedSeries_step:
  assumes "timedSeries env isAwaited seriesSz dataArray fn s = (r, s')"
  shows "step r s s'"
proof -
  obtain startTime w0 where t0: "getTime env (world s) = (startTime, w0)"
    by (cases "getTime env (world s)")
  from assms t0
  have b: "bindR (seriesCalls env isAwaited fn dataArray (toUint32 (length dataArray)) 0
                    (toUint32 seriesSz) (s\<lparr> world := w0 \<rparr>))
             (\<lambda>u s1. case getTime env (world s1) of
                        (endTime, w1) \<Rightarrow> (Inr (endTime - startTime), s1\<lparr> world := w1 \<rparr>))
           = (r, s')"
    by (simp add: timedSeries_def)
  have "step r (s\<lparr> world := w0 \<rparr>) s'"
  proof (rule bindR_step [OF b])
    fix r1 s1
    assume "seriesCalls env isAwaited fn dataArray (toUint32 (length dataArray)) 0
              (toUint32 seriesSz) (s\<lparr> world := w0 \<rparr>) = (r1, s1)"
    then show "step r1 (s\<lparr> world := w0 \<rparr>) s1" by (rule seriesCalls_step)
  next
    fix v s1
    assume "(case getTime env (world s1) of
               (endTime, w1) \<Rightarrow> (Inr (endTime - startTime), s1\<lparr> world := w1 \<rparr>)) = (r, s')"
    then show "step r s1 s'" by (auto simp: step_def split: prod.splits)
  qed
  then show ?thesis using step_trans [OF world_step [of "()" s w0]] by blast
qed

lemma measuredSeries_step:
  "(if isAsync
    then awaited env (measureSeriesAsync env seriesSz dataArray fn s)
    else measureSeries env seriesSz dataArray fn s) = (r, s') \<Longrightarrow> step r s s'"
  by (cases isAsync)
     (auto simp: measureSeries_def measureSeriesAsync_def intro: timedSeries_step awaited_step)

lemma memoryPasses_step:
  "memoryPasses env isAwaited fn dataArray cnt i k memories s = (r, s') \<Longrightarrow> step r s s'"
proof (induction k arbitrary: i memories s)
  case 0
  then show ?case by auto
next
  case (Suc k)
  obtain startMemory w0 where m0: "getMemoryUsage env (runGC env (world s)) = (startMemory, w0)"
    by (cases "getMemoryUsage env (runGC env (world s))")
  from Suc.prems m0
  have b: "bindR (if isAwaited
                  then awaited env (callTarget env fn (datumAt dataArray i cnt) (s\<lparr> world := w0 \<rparr>))
                  else callTarget env fn (datumAt dataArray i cnt) (s\<lparr> world := w0 \<rparr>))
             (\<lambda>v s1. case getMemoryUsage env (world s1) of
                        (endMemory, w1) \<Rightarrow>
                          memoryPasses env isAwaited fn dataArray cnt (i + 1) k
                            (memories @ [max 0 (endMemory - startMemory)])
                            (s1\<lparr> world := w1 \<rparr>)) = (r, s')"
    by simp
  have "step r (s\<lparr> world := w0 \<rparr>) s'"
  proof (rule bindR_step [OF b])
    fix r1 s1
    assume "(if isAwaited
             then awaited env (callTarget env fn (datumAt dataArray i cnt) (s\<lparr> world := w0 \<rparr>))
             else callTarget env fn (datumAt dataArray i cnt) (s\<lparr> world := w0 \<rparr>)) = (r1, s1)"
    then show "step r1 (s\<lparr> world := w0 \<rparr>) s1" by (rule targetCall_step)
  next
    fix v s1
    assume a: "(case getMemoryUsage env (world s1) of
                 (endMemory, w1) \<Rightarrow>
                   memoryPasses env isAwaited fn dataArray cnt (i + 1) k
                     (memories @ [max 0 (endMemory - startMemory)])
                     (s1\<lparr> world := w1 \<rparr>)) = (r, s')"
    obtain endMemory w1 where m1: "getMemoryUsage env (world s1) = (endMemory, w1)"
      by (cases "getMemoryUsage env (world s1)")
    from a m1 have "step r (s1\<lparr> world := w1 \<rparr>) s'" by (auto intro: Suc.IH)
    then show "step r s1 s'" using step_trans [OF world_step [of "()" s1 w1]] by blast
  qed
  then show ?case using step_trans [OF world_step [of "()" s w0]] by blast
qed

lemma measuredMemory_step:
  "(if isAsync
    then awaited env (measureSeriesMemoryAsync env passes dataArray fn s)
    else measureSeriesMemory env passes dataArray fn s) = (r, s') \<Longrightarrow> step r s s'"
  by (cases isAsync)
     (auto simp: measureSeriesMemory_def measureSeriesMemoryAsync_def
           intro: memoryPasses_step awaited_step)

lemma wait_step: "step (Inr v) s (suspend env (s\<lparr> trace := trace s @ [Wait d] \<rparr>))"
proof -
  have "step (Inr v) s (s\<lparr> trace := trace s @ [Wait d] \<rparr>)"
    unfolding step_def by (intro exI [of _ "[Wait d]"]) simp
  then show ?thesis by (rule step_trans) (rule suspend_step)
qed

lemma gc_step: "step (Inr v) s (if b then s\<lparr> world := w \<rparr> else s)"
  by (simp add: world_step)

lemma runSeries_step:
  "runSeries env params func dataArray k durations s = (r, s') \<Longrightarrow> step r s s'"
proof (induction k arbitrary: durations s)
  case 0
  then show ?case by auto
next
  case (Suc k)
  show ?case
  proof (cases "stopRequested s")
    case True
    with Suc.prems show ?thesis by auto
  next
    case False
    let ?s0 = "if forceGC params then s\<lparr> world := runGC env (world s) \<rparr> else s"
    from Suc.prems False
    have b: "bindR (if rf_isAsync func
               then awaited env (measureSeriesAsync env (seriesSize params) dataArray (rf_fn func) ?s0)
               else measureSeries env (seriesSize params) dataArray (rf_fn func) ?s0)
          (\<lambda>duration s1.
             runSeries env params func dataArray k (durations @ [duration])
               (suspend env (s1\<lparr> trace := trace s1 @ [Wait (delay params)] \<rparr>))) = (r, s')"
      by (simp add: Let_def)
    have "step r ?s0 s'"
    proof (rule bindR_step [OF b])
      fix r1 s1
      assume "(if rf_isAsync func
               then awaited env (measureSeriesAsync env (seriesSize params) dataArray (rf_fn func) ?s0)
               else measureSeries env (seriesSize params) dataArray (rf_fn func) ?s0) = (r1, s1)"
      then show "step r1 ?s0 s1" by (rule measuredSeries_step)
    next
      fix v s1
      assume "runSeries env params func dataArray k (durations @ [v])
               (suspend env (s1\<lparr> trace := trace s1 @ [Wait (delay params)] \<rparr>)) = (r, s')"
      then have "step r (suspend env (s1\<lparr> trace := trace s1 @ [Wait (delay params)] \<rparr>)) s'"
        by (rule Suc.IH)
      then show "step r s1 s'" using step_trans [OF wait_step [of "()" s1 env]] by blast
    qed
    then show ?thesis using step_trans [OF gc_step [of "()" s]] by blast
  qed
qed

lemma measureMemory_step:
  assumes "measureMemory env params func dataArray s = (r, s')"
  shows "step r s s'"
proof (cases "memoryMeasurementsCount params")
  case None
  with assms show ?thesis by (auto simp: measureMemory_def)
next
  case (Some passes)
  show ?thesis
  proof (cases "passes > 0")
    case False
    with assms Some show ?thesis by (auto simp: measureMemory_def)
  next
    case True
    with assms Some
    have b: "bindR (if rf_isAsync func
                   then awaited env (measureSeriesMemoryAsync env passes dataArray (rf_fn func) s)
                   else measureSeriesMemory env passes dataArray (rf_fn func) s)
              (\<lambda>memoryUsages s1. (Inr (Some memoryUsages), s1)) = (r, s')"
      by (simp add: measureMemory_def)
    show ?thesis
      by (rule bindR_step [OF b]) (auto intro: measuredMemory_step)
  qed
qed

lemma dataArray_step:
  "(case sharedDataArray of
      Some dataArray \<Rightarrow> (Inr dataArray, s)
    | None \<Rightarrow> generateData env g dataSize n [] s) = (r, s') \<Longrightarrow> step r s s'"
  by (cases sharedDataArray) (auto intro: generateData_step)

lemma runMeasureItem_step:
  assumes "runMeasureItem env params stepsTotal sharedDataArray dataSize item func s = (r, s')"
  shows "step r s s'"
proof (rule bindR_step [OF assms [unfolded runMeasureItem_def]])
  fix r1 s1
  assume "(case sharedDataArray of
             Some dataArray \<Rightarrow> (Inr dataArray, s)
           | None \<Rightarrow> generateData env (rf_dataGenerator func) dataSize (dataUnitsCount params) [] s)
          = (r1, s1)"
  then show "step r1 s s1" by (rule dataArray_step)
next
  fix dataArray s1
  assume b: "bindR (runSeries env params func dataArray (seriesCount params) [] s1)
            (\<lambda>durations s2.
               bindR (measureMemory env params func dataArray s2)
                 (\<lambda>memoryUsages s3.
                    let result = measurementResult (rf_path func) (title item) dataSize
                                   durations (seriesSize params) memoryUsages;
                        s4 = s3\<lparr> currentStep := currentStep s3 + dataSize \<rparr>;
                        progress = progressOf (currentStep s4) stepsTotal
                    in (Inr (),
                        emit env
                          \<lparr> ev_path = rf_path func, ev_title = title item,
                            ev_dataSize = dataSize, ev_progress = progress,
                            ev_result = Some result, ev_customResult = None \<rparr> s4))) = (r, s')"
  show "step r s1 s'"
  proof (rule bindR_step [OF b])
    fix r2 s2
    assume "runSeries env params func dataArray (seriesCount params) [] s1 = (r2, s2)"
    then show "step r2 s1 s2" by (rule runSeries_step)
  next
    fix durations s2
    assume c: "bindR (measureMemory env params func dataArray s2)
                 (\<lambda>memoryUsages s3.
                    let result = measurementResult (rf_path func) (title item) dataSize
                                   durations (seriesSize params) memoryUsages;
                        s4 = s3\<lparr> currentStep := currentStep s3 + dataSize \<rparr>;
                        progress = progressOf (currentStep s4) stepsTotal
                    in (Inr (),
                        emit env
                          \<lparr> ev_path = rf_path func, ev_title = title item,
                            ev_dataSize = dataSize, ev_progress = progress,
                            ev_result = Some result, ev_customResult = None \<rparr> s4)) = (r, s')"
    show "step r s2 s'"
    proof (rule bindR_step [OF c])
      fix r3 s3
      assume "measureMemory env params func dataArray s2 = (r3, s3)"
      then show "step r3 s2 s3" by (rule measureMemory_step)
    next
      fix memoryUsages s3
      assume "(let result = measurementResult (rf_path func) (title item) dataSize
                                   durations (seriesSize params) memoryUsages;
                        s4 = s3\<lparr> currentStep := currentStep s3 + dataSize \<rparr>;
                        progress = progressOf (currentStep s4) stepsTotal
                    in (Inr (),
                        emit env
                          \<lparr> ev_path = rf_path func, ev_title = title item,
                            ev_dataSize = dataSize, ev_progress = progress,
                            ev_result = Some result, ev_customResult = None \<rparr> s4)) = (r, s')"
      then show "step r s3 s'"
        by (auto simp: Let_def intro!: emit_step)
    qed
  qed
qed

lemma evaluateShared_step:
  "evaluateShared env fn dataArray vals s = (r, s') \<Longrightarrow> step r s s'"
proof (induction dataArray arbitrary: vals s)
  case Nil
  then show ?case by auto
next
  case (Cons d rest)
  from Cons.prems
  have b: "bindR (callTarget env fn (Some d) s)
             (\<lambda>v s1. evaluateShared env fn rest (vals @ [v]) s1) = (r, s')"
    by simp
  show ?case
    by (rule bindR_step [OF b]) (auto intro: callTarget_step Cons.IH)
qed

lemma evaluateFresh_step:
  "evaluateFresh env customEval dataSize k vals s = (r, s') \<Longrightarrow> step r s s'"
proof (induction k arbitrary: vals s)
  case 0
  then show ?case by auto
next
  case (Suc k)
  from Suc.prems
  have b: "bindR (callGenerator env (ce_dataGenerator customEval) dataSize s)
       (\<lambda>d s1. bindR (callTarget env (ce_fn customEval) (Some d) s1)
                  (\<lambda>v s2. evaluateFresh env customEval dataSize k (vals @ [v]) s2)) = (r, s')"
    by simp
  show ?case
  proof (rule bindR_step [OF b])
    fix r1 s1
    assume "callGenerator env (ce_dataGenerator customEval) dataSize s = (r1, s1)"
    then show "step r1 s s1" by (rule callGenerator_step)
  next
    fix d s1
    assume c: "bindR (callTarget env (ce_fn customEval) (Some d) s1)
                  (\<lambda>v s2. evaluateFresh env customEval dataSize k (vals @ [v]) s2) = (r, s')"
    show "step r s1 s'"
      by (rule bindR_step [OF c]) (auto intro: callTarget_step Suc.IH)
  qed
qed

lemma runEvaluateItem_step:
  assumes "runEvaluateItem env params stepsTotal sharedDataArray dataSize item customEval s = (r, s')"
  shows "step r s s'"
proof (rule bindR_step [OF assms [unfolded runEvaluateItem_def]])
  fix r1 s1
  assume "(case sharedDataArray of
              Some dataArray \<Rightarrow> evaluateShared env (ce_fn customEval) dataArray [] s
            | None \<Rightarrow> evaluateFresh env customEval dataSize (dataUnitsCount params) [] s) = (r1, s1)"
  then show "step r1 s s1"
    by (cases sharedDataArray) (auto intro: evaluateShared_step evaluateFresh_step)
next
  fix vals s1
  assume "(let result = customResult (ce_path customEval) (title item) dataSize vals
                         (ce_customChart customEval);
              s2 = s1\<lparr> currentStep := currentStep s1 + dataSize \<rparr>;
              progress = progressOf (currentStep s2) stepsTotal
          in (Inr (),
              emit env
                \<lparr> ev_path = ce_path customEval, ev_title = title item,
                  ev_dataSize = dataSize, ev_progress = progress,
                  ev_result = None, ev_customResult = Some result \<rparr> s2)) = (r, s')"
  then show "step r s1 s'"
    by (auto simp: Let_def intro!: emit_step)
qed

lemma runItem_step:
  "runItem env params stepsTotal sharedDataArray dataSize item s = (r, s') \<Longrightarrow> step r s s'"
  by (auto simp: runItem_def split: leaf.splits intro: runMeasureItem_step runEvaluateItem_step)

lemma forItems_step:
  "forItems env params stepsTotal key sharedDataArray dataSize items s = (r, s') \<Longrightarrow> step r s s'"
proof (induction items arbitrary: s)
  case Nil
  then show ?case by auto
next
  case (Cons item items)
  show ?case
  proof (cases "stopRequested s \<or> isSkipped key s")
    case True
    with Cons.prems show ?thesis by (auto split: if_splits)
  next
    case False
    with Cons.prems
    have b: "bindR (runItem env params stepsTotal sharedDataArray dataSize item s)
             (\<lambda>u s1. forItems env params stepsTotal key sharedDataArray dataSize items s1) = (r, s')"
      by simp
    show ?thesis
      by (rule bindR_step [OF b]) (auto intro: runItem_step Cons.IH)
  qed
qed

lemma sharedData_step:
  "(if allUseSameGenerator
    then bindR (generateData env g dataSize n [] s) (\<lambda>dataArray s1. (Inr (Some dataArray), s1))
    else (Inr None, s)) = (r, s') \<Longrightarrow> step r s s'"
proof (cases allUseSameGenerator)
  case False
  then show "(if allUseSameGenerator
    then bindR (generateData env g dataSize n [] s) (\<lambda>dataArray s1. (Inr (Some dataArray), s1))
    else (Inr None, s)) = (r, s') \<Longrightarrow> step r s s'" by auto
next
  case True
  assume "(if allUseSameGenerator
    then bindR (generateData env g dataSize n [] s) (\<lambda>dataArray s1. (Inr (Some dataArray), s1))
    else (Inr None, s)) = (r, s')"
  with True have b: "bindR (generateData env g dataSize n [] s)
      (\<lambda>dataArray s1. (Inr (Some dataArray), s1)) = (r, s')" by simp
  show "step r s s'"
    by (rule bindR_step [OF b]) (auto intro: generateData_step)
qed

lemma forDataSizes_step:
  "forDataSizes env params stepsTotal key items g same sizes s = (r, s') \<Longrightarrow> step r s s'"
proof (induction sizes arbitrary: s)
  case Nil
  then show ?case by auto
next
  case (Cons dataSize sizes)
  show ?case
  proof (cases "stopRequested s \<or> isSkipped key s")
    case True
    with Cons.prems show ?thesis by (auto split: if_splits)
  next
    case False
    with Cons.prems
    have b: "bindR (if same
               then bindR (generateData env g dataSize (dataUnitsCount params) [] s)
                      (\<lambda>dataArray s1. (Inr (Some dataArray), s1))
               else (Inr None, s))
          (\<lambda>sharedDataArray s1.
             bindR (forItems env params stepsTotal key sharedDataArray dataSize items s1)
               (\<lambda>u s2. forDataSizes env params stepsTotal key items g same sizes s2)) = (r, s')"
      by simp
    show ?thesis
    proof (rule bindR_step [OF b])
      fix r1 s1
      assume "(if same
               then bindR (generateData env g dataSize (dataUnitsCount params) [] s)
                      (\<lambda>dataArray s1. (Inr (Some dataArray), s1))
               else (Inr None, s)) = (r1, s1)"
      then show "step r1 s s1" by (rule sharedData_step)
    next
      fix sharedDataArray s1
      assume c: "bindR (forItems env params stepsTotal key sharedDataArray dataSize items s1)
               (\<lambda>u s2. forDataSizes env params stepsTotal key items g same sizes s2) = (r, s')"
      show "step r s1 s'"
        by (rule bindR_step [OF c]) (auto intro: forItems_step Cons.IH)
    qed
  qed
qed

lemma forPathKeys_step:
  "forPathKeys env params stepsTotal byKey keys s = (r, s') \<Longrightarrow> step r s s'"
proof (induction keys arbitrary: s)
  case Nil
  then show ?case by auto
next
  case (Cons key keys)
  show ?case
  proof (cases "stopRequested s")
    case True
    with Cons.prems show ?thesis by auto
  next
    case False
    show ?thesis
    proof (cases "itemsOf byKey key")
      case Nil
      with Cons.prems False show ?thesis by (auto intro: Cons.IH)
    next
      case (Cons firstItem others)
      show ?thesis
      proof (cases "isSkipped key s")
        case True
        with Cons.prems False Cons show ?thesis by (auto intro: Cons.IH)
      next
        case notSkipped: False
        let ?g = "itemGenerator firstItem"
        let ?same = "list_all (\<lambda>item. itemGenerator item = ?g) (firstItem # others)"
        from Cons.prems False Cons notSkipped
        have b: "bindR (forDataSizes env params stepsTotal key (firstItem # others)
                          ?g ?same (dataUnitSizes params) s)
                   (\<lambda>u s1. forPathKeys env params stepsTotal byKey keys s1) = (r, s')"
          by (simp add: Let_def)
        show ?thesis
          by (rule bindR_step [OF b]) (auto intro: forDataSizes_step Cons.IH)
      qed
    qed
  qed
qed

section \<open>Selection, statistics and the resets\<close>

lemma toUint32_code [code]: "toUint32 n = nat (int n mod 4294967296)"
  by (simp add: toUint32_def nat_mod_distrib)




lemma foldl_plus_sum_list: "foldl (+) a xs = a + sum_list (xs :: rat list)"
  by (induction xs arbitrary: a) (auto simp: add.assoc)

lemma foldl_min_Min: "foldl min x xs = Min (set (x # xs :: rat list))"
proof (induction xs arbitrary: x)
  case Nil
  then show ?case by simp
next
  case (Cons y ys)
  have "foldl min x (y # ys) = Min (set (min x y # ys))" using Cons.IH by simp
  also have "\<dots> = Min (set (x # y # ys))"
    by (cases ys) (auto simp: min.assoc)
  finally show ?case .
qed

lemma foldl_max_Max: "foldl max x xs = Max (set (x # xs :: rat list))"
proof (induction xs arbitrary: x)
  case Nil
  then show ?case by simp
next
  case (Cons y ys)
  have "foldl max x (y # ys) = Max (set (max x y # ys))" using Cons.IH by simp
  also have "\<dots> = Max (set (x # y # ys))"
    by (cases ys) (auto simp: max.assoc)
  finally show ?case .
qed

lemma reduceAvg_mean: "xs \<noteq> [] \<Longrightarrow> reduceAvg xs = Fin (mean xs)"
  by (simp add: reduceAvg_def mean_def foldl_plus_sum_list)

lemma mathMin_least: "xs \<noteq> [] \<Longrightarrow> mathMin xs = Fin (least xs)"
  by (cases xs) (simp_all add: mathMin_def least_def foldl_min_Min)

lemma mathMax_greatest: "xs \<noteq> [] \<Longrightarrow> mathMax xs = Fin (greatest xs)"
  by (cases xs) (simp_all add: mathMax_def greatest_def foldl_max_Max)

text \<open>
  Claim C2. For a measure leaf with a non-empty list of collected series durations, the
  reported per-operation durations are the mean, the least and the greatest duration
  divided by the series size, and the throughputs are 1000 divided by them with the
  pairing inverted: the average from the average duration, the minimum from the greatest
  duration and the maximum from the least duration.
\<close>

theorem measurementResult_spec:
  assumes "durations \<noteq> []"
  shows "mr_duration (measurementResult path ttl dataSize durations seriesSz mem) =
           jdiv (Fin (mean durations)) (Fin (of_nat seriesSz)) \<and>
         mr_durationMin (measurementResult path ttl dataSize durations seriesSz mem) =
           jdiv (Fin (least durations)) (Fin (of_nat seriesSz)) \<and>
         mr_durationMax (measurementResult path ttl dataSize durations seriesSz mem) =
           jdiv (Fin (greatest durations)) (Fin (of_nat seriesSz)) \<and>
         mr_avg (measurementResult path ttl dataSize durations seriesSz mem) =
           jdiv (Fin 1000) (jdiv (Fin (mean durations)) (Fin (of_nat seriesSz))) \<and>
         mr_min (measurementResult path ttl dataSize durations seriesSz mem) =
           jdiv (Fin 1000) (jdiv (Fin (greatest durations)) (Fin (of_nat seriesSz))) \<and>
         mr_max (measurementResult path ttl dataSize durations seriesSz mem) =
           jdiv (Fin 1000) (jdiv (Fin (least durations)) (Fin (of_nat seriesSz)))"
  using assms
  by (simp add: measurementResult_def Let_def reduceAvg_mean mathMin_least mathMax_greatest)

theorem measurementResult_spec_witness:
  "mr_duration (measurementResult (Some [''G'', ''a'']) ''a'' 10 [2, 4] 2 None) = Fin (3 / 2) \<and>
   mr_durationMin (measurementResult (Some [''G'', ''a'']) ''a'' 10 [2, 4] 2 None) = Fin 1 \<and>
   mr_durationMax (measurementResult (Some [''G'', ''a'']) ''a'' 10 [2, 4] 2 None) = Fin 2 \<and>
   mr_avg (measurementResult (Some [''G'', ''a'']) ''a'' 10 [2, 4] 2 None) = Fin (2000 / 3) \<and>
   mr_min (measurementResult (Some [''G'', ''a'']) ''a'' 10 [2, 4] 2 None) = Fin 500 \<and>
   mr_max (measurementResult (Some [''G'', ''a'']) ''a'' 10 [2, 4] 2 None) = Fin 1000"
proof -
  have ne: "[2, 4 :: rat] \<noteq> []" by simp
  show ?thesis
    using measurementResult_spec [OF ne, of "Some [''G'', ''a'']" "''a''" 10 2 None]
    by (simp add: mean_def least_def greatest_def)
qed

text \<open>
  Claim C10. \<^verbatim>\<open>runMeasurements\<close> first sets the stop flag to false and empties the skip
  set: a \<^verbatim>\<open>stop()\<close> or \<^verbatim>\<open>skipPathKey()\<close> made before the run, and whatever flag and
  skip set an earlier run left behind, change neither the result nor the final state of
  the run.
\<close>

theorem runMeasurements_resets:
  "runMeasurements env reg config (stop s) = runMeasurements env reg config s \<and>
   runMeasurements env reg config (skipPathKey key s) = runMeasurements env reg config s \<and>
   runMeasurements env reg config (s\<lparr> stopRequested := flag, skippedSubGroups := keys \<rparr>) =
     runMeasurements env reg config s"
  by (simp add: runMeasurements_def stop_def skipPathKey_def)

theorem runMeasurements_resets_witness:
  "runMeasurements quietEnv registryA configA (stop idle) =
     runMeasurements quietEnv registryA configA idle \<and>
   runMeasurements quietEnv registryA configA (skipPathKey ''G'' idle) =
     runMeasurements quietEnv registryA configA idle \<and>
   map shapeOf (emitted (trace (snd (runMeasurements quietEnv registryA configA
       (stop (skipPathKey ''G'' idle)))))) =
     [(Some [''G'', ''a''], ''a'', 10), (Some [''G'', ''b''], ''b'', 10)]"
proof -
  have "map shapeOf (emitted (trace (snd (runMeasurements quietEnv registryA configA idle)))) =
     [(Some [''G'', ''a''], ''a'', 10), (Some [''G'', ''b''], ''b'', 10)]"
    by code_simp
  moreover have "runMeasurements quietEnv registryA configA (stop (skipPathKey ''G'' idle)) =
     runMeasurements quietEnv registryA configA idle"
    using runMeasurements_resets [of quietEnv registryA configA "skipPathKey ''G'' idle" "''G''"]
      runMeasurements_resets [of quietEnv registryA configA idle "''G''"]
    by simp
  ultimately show ?thesis
    using runMeasurements_resets [of quietEnv registryA configA idle "''G''"] by simp
qed

section \<open>Parts of a run that emit nothing\<close>


lemma trace_perform [simp]: "trace (perform c s) = trace s @ [Received c]"
  by (cases c) (simp_all add: perform_def stop_def skipPathKey_def skipSubGroup_def)

lemma trace_performAll [simp]: "trace (performAll calls s) = trace s @ map Received calls"
  by (induction calls arbitrary: s) (simp_all add: performAll_def)

lemma emitted_Received [simp]: "emitted (map Received calls) = []"
  by (induction calls) simp_all

lemma received_Received [simp]: "received (map Received calls) = calls"
  by (induction calls) simp_all

lemma generatorCalls_simps [simp]:
  "generatorCalls [] = 0"
  "generatorCalls (xs @ ys) = generatorCalls xs + generatorCalls ys"
  "generatorCalls (GeneratorCall g n ok # xs) = Suc (generatorCalls xs)"
  "generatorCalls (TargetCall fn ok # xs) = generatorCalls xs"
  "generatorCalls (Wait d # xs) = generatorCalls xs"
  "generatorCalls (Emitted ev # xs) = generatorCalls xs"
  "generatorCalls (Received c # xs) = generatorCalls xs"
  by (simp_all add: generatorCalls_def)

lemma generatorCalls_Received [simp]: "generatorCalls (map Received calls) = 0"
  by (induction calls) simp_all

lemma trace_suspend: "\<exists>calls. trace (suspend env s) = trace s @ map Received calls"
  by (cases "resume env (world s)") (auto simp: suspend_def)

lemma emitted_suspend [simp]: "emitted (trace (suspend env s)) = emitted (trace s)"
  using trace_suspend [of env s] by auto

lemma generatorCalls_suspend [simp]:
  "generatorCalls (trace (suspend env s)) = generatorCalls (trace s)"
  using trace_suspend [of env s] by auto

lemma trace_emit:
  "\<exists>calls. trace (emit env ev s) = trace s @ Emitted ev # map Received calls"
  by (cases "onProgress env ev (world s)") (auto simp: emit_def)

lemma quiet_refl [simp]: "quiet 0 (Inr v) s s"
  by (simp add: quiet_def)

lemma bindR_quiet:
  assumes "bindR m k = (r, s')"
    and "\<And>r1 s1. m = (r1, s1) \<Longrightarrow> quiet a r1 s s1"
    and "\<And>v s1. m = (Inr v, s1) \<Longrightarrow> k v s1 = (r, s') \<Longrightarrow> quiet b r s1 s'"
  shows "quiet (a + b) r s s'"
  using assms(1)
proof (cases rule: bindR_E)
  case (throws e)
  then show ?thesis using assms(2) [of "Inl e" s'] by (simp add: quiet_def)
next
  case (returns v s1)
  from assms(2) [OF returns(1)] assms(3) [OF returns]
  show ?thesis by (cases r) (auto simp: quiet_def)
qed

lemma bindR_quiet0:
  assumes "bindR m k = (r, s')"
    and "\<And>r1 s1. m = (r1, s1) \<Longrightarrow> quiet 0 r1 s s1"
    and "\<And>v s1. m = (Inr v, s1) \<Longrightarrow> k v s1 = (r, s') \<Longrightarrow> quiet b r s1 s'"
  shows "quiet b r s s'"
  using bindR_quiet [OF assms(1), of 0 s b] assms(2,3) by simp

lemma quiet_world: "quiet n r (s\<lparr> world := w \<rparr>) s' \<Longrightarrow> quiet n r s s'"
  by (cases r) (simp_all add: quiet_def)

lemma callGenerator_quiet: "callGenerator env g dataSize s = (r, s') \<Longrightarrow> quiet 1 r s s'"
  by (auto simp: callGenerator_def quiet_def split: prod.splits sum.splits)

lemma callTarget_quiet: "callTarget env fn x s = (r, s') \<Longrightarrow> quiet 0 r s s'"
  by (auto simp: callTarget_def quiet_def split: prod.splits sum.splits)

lemma awaited_quiet:
  assumes "\<And>r s'. m = (r, s') \<Longrightarrow> quiet n r s s'" and "awaited env m = (r, s')"
  shows "quiet n r s s'"
proof -
  have "quiet (n + 0) r s s'"
  proof (rule bindR_quiet [OF assms(2) [unfolded awaited_def]])
    fix r1 s1 assume "m = (r1, s1)"
    then show "quiet n r1 s s1" by (rule assms(1))
  next
    fix v s1 assume "(Inr v, suspend env s1) = (r, s')"
    then show "quiet 0 r s1 s'" by (auto simp: quiet_def)
  qed
  then show ?thesis by simp
qed

lemma targetCall_quiet:
  "(if isAwaited then awaited env (callTarget env fn x s) else callTarget env fn x s) = (r, s')
   \<Longrightarrow> quiet 0 r s s'"
  by (cases isAwaited) (auto intro: callTarget_quiet awaited_quiet)

lemma seriesCalls_quiet:
  "seriesCalls env isAwaited fn dataArray cnt i k s = (r, s') \<Longrightarrow> quiet 0 r s s'"
proof (induction k arbitrary: i s)
  case 0
  then show ?case by auto
next
  case (Suc k)
  from Suc.prems
  have b: "bindR (if isAwaited then awaited env (callTarget env fn (datumAt dataArray i cnt) s)
                  else callTarget env fn (datumAt dataArray i cnt) s)
             (\<lambda>v s1. seriesCalls env isAwaited fn dataArray cnt (i + 1) k s1) = (r, s')"
    by simp
  show ?case
    by (rule bindR_quiet0 [OF b]) (auto intro: targetCall_quiet Suc.IH)
qed

lemma timedSeries_quiet:
  assumes "timedSeries env isAwaited seriesSz dataArray fn s = (r, s')"
  shows "quiet 0 r s s'"
proof -
  obtain startTime w0 where t0: "getTime env (world s) = (startTime, w0)"
    by (cases "getTime env (world s)")
  from assms t0
  have b: "bindR (seriesCalls env isAwaited fn dataArray (toUint32 (length dataArray)) 0
                    (toUint32 seriesSz) (s\<lparr> world := w0 \<rparr>))
             (\<lambda>u s1. case getTime env (world s1) of
                        (endTime, w1) \<Rightarrow> (Inr (endTime - startTime), s1\<lparr> world := w1 \<rparr>))
           = (r, s')"
    by (simp add: timedSeries_def)
  have "quiet 0 r (s\<lparr> world := w0 \<rparr>) s'"
  proof (rule bindR_quiet0 [OF b])
    fix r1 s1
    assume "seriesCalls env isAwaited fn dataArray (toUint32 (length dataArray)) 0
              (toUint32 seriesSz) (s\<lparr> world := w0 \<rparr>) = (r1, s1)"
    then show "quiet 0 r1 (s\<lparr> world := w0 \<rparr>) s1" by (rule seriesCalls_quiet)
  next
    fix v s1
    assume "(case getTime env (world s1) of
               (endTime, w1) \<Rightarrow> (Inr (endTime - startTime), s1\<lparr> world := w1 \<rparr>)) = (r, s')"
    then show "quiet 0 r s1 s'" by (auto simp: quiet_def split: prod.splits)
  qed
  then show ?thesis by (rule quiet_world)
qed

lemma measuredSeries_quiet:
  "(if isAsync
    then awaited env (measureSeriesAsync env seriesSz dataArray fn s)
    else measureSeries env seriesSz dataArray fn s) = (r, s') \<Longrightarrow> quiet 0 r s s'"
  by (cases isAsync)
     (auto simp: measureSeries_def measureSeriesAsync_def intro: timedSeries_quiet awaited_quiet)

lemma memoryPasses_quiet:
  "memoryPasses env isAwaited fn dataArray cnt i k memories s = (r, s') \<Longrightarrow> quiet 0 r s s'"
proof (induction k arbitrary: i memories s)
  case 0
  then show ?case by auto
next
  case (Suc k)
  obtain startMemory w0 where m0: "getMemoryUsage env (runGC env (world s)) = (startMemory, w0)"
    by (cases "getMemoryUsage env (runGC env (world s))")
  from Suc.prems m0
  have b: "bindR (if isAwaited
                  then awaited env (callTarget env fn (datumAt dataArray i cnt) (s\<lparr> world := w0 \<rparr>))
                  else callTarget env fn (datumAt dataArray i cnt) (s\<lparr> world := w0 \<rparr>))
             (\<lambda>v s1. case getMemoryUsage env (world s1) of
                        (endMemory, w1) \<Rightarrow>
                          memoryPasses env isAwaited fn dataArray cnt (i + 1) k
                            (memories @ [max 0 (endMemory - startMemory)])
                            (s1\<lparr> world := w1 \<rparr>)) = (r, s')"
    by simp
  have "quiet 0 r (s\<lparr> world := w0 \<rparr>) s'"
  proof (rule bindR_quiet0 [OF b])
    fix r1 s1
    assume "(if isAwaited
             then awaited env (callTarget env fn (datumAt dataArray i cnt) (s\<lparr> world := w0 \<rparr>))
             else callTarget env fn (datumAt dataArray i cnt) (s\<lparr> world := w0 \<rparr>)) = (r1, s1)"
    then show "quiet 0 r1 (s\<lparr> world := w0 \<rparr>) s1" by (rule targetCall_quiet)
  next
    fix v s1
    assume a: "(case getMemoryUsage env (world s1) of
                 (endMemory, w1) \<Rightarrow>
                   memoryPasses env isAwaited fn dataArray cnt (i + 1) k
                     (memories @ [max 0 (endMemory - startMemory)])
                     (s1\<lparr> world := w1 \<rparr>)) = (r, s')"
    obtain endMemory w1 where m1: "getMemoryUsage env (world s1) = (endMemory, w1)"
      by (cases "getMemoryUsage env (world s1)")
    from a m1 have "quiet 0 r (s1\<lparr> world := w1 \<rparr>) s'" by (auto intro: Suc.IH)
    then show "quiet 0 r s1 s'" by (rule quiet_world)
  qed
  then show ?case by (rule quiet_world)
qed

lemma measuredMemory_quiet:
  "(if isAsync
    then awaited env (measureSeriesMemoryAsync env passes dataArray fn s)
    else measureSeriesMemory env passes dataArray fn s) = (r, s') \<Longrightarrow> quiet 0 r s s'"
  by (cases isAsync)
     (auto simp: measureSeriesMemory_def measureSeriesMemoryAsync_def
           intro: memoryPasses_quiet awaited_quiet)

lemma generateData_quiet:
  "generateData env g dataSize k dataArray s = (r, s') \<Longrightarrow> quiet k r s s'"
proof (induction k arbitrary: dataArray s)
  case 0
  then show ?case by auto
next
  case (Suc k)
  from Suc.prems
  have b: "bindR (callGenerator env g dataSize s)
             (\<lambda>d s1. generateData env g dataSize k (dataArray @ [d]) s1) = (r, s')"
    by simp
  have "quiet (1 + k) r s s'"
  proof (rule bindR_quiet [OF b])
    fix r1 s1
    assume "callGenerator env g dataSize s = (r1, s1)"
    then show "quiet 1 r1 s s1" by (rule callGenerator_quiet)
  next
    fix d s1
    assume "generateData env g dataSize k (dataArray @ [d]) s1 = (r, s')"
    then show "quiet k r s1 s'" by (rule Suc.IH)
  qed
  then show ?case by simp
qed

lemma quiet_wait:
  "quiet n r (suspend env (s\<lparr> trace := trace s @ [Wait d] \<rparr>)) s' \<Longrightarrow> quiet n r s s'"
  by (cases r) (simp_all add: quiet_def)

lemma quiet_gc:
  "quiet n r (if b then s\<lparr> world := w \<rparr> else s) s' \<Longrightarrow> quiet n r s s'"
  by (cases r; cases b) (simp_all add: quiet_def)

lemma runSeries_quiet:
  "runSeries env params func dataArray k durations s = (r, s') \<Longrightarrow> quiet 0 r s s'"
proof (induction k arbitrary: durations s)
  case 0
  then show ?case by auto
next
  case (Suc k)
  show ?case
  proof (cases "stopRequested s")
    case True
    with Suc.prems show ?thesis by auto
  next
    case False
    let ?s0 = "if forceGC params then s\<lparr> world := runGC env (world s) \<rparr> else s"
    from Suc.prems False
    have b: "bindR (if rf_isAsync func
               then awaited env (measureSeriesAsync env (seriesSize params) dataArray (rf_fn func) ?s0)
               else measureSeries env (seriesSize params) dataArray (rf_fn func) ?s0)
          (\<lambda>duration s1.
             runSeries env params func dataArray k (durations @ [duration])
               (suspend env (s1\<lparr> trace := trace s1 @ [Wait (delay params)] \<rparr>))) = (r, s')"
      by (simp add: Let_def)
    have "quiet 0 r ?s0 s'"
    proof (rule bindR_quiet0 [OF b])
      fix r1 s1
      assume "(if rf_isAsync func
               then awaited env (measureSeriesAsync env (seriesSize params) dataArray (rf_fn func) ?s0)
               else measureSeries env (seriesSize params) dataArray (rf_fn func) ?s0) = (r1, s1)"
      then show "quiet 0 r1 ?s0 s1" by (rule measuredSeries_quiet)
    next
      fix v s1
      assume "runSeries env params func dataArray k (durations @ [v])
               (suspend env (s1\<lparr> trace := trace s1 @ [Wait (delay params)] \<rparr>)) = (r, s')"
      then have "quiet 0 r (suspend env (s1\<lparr> trace := trace s1 @ [Wait (delay params)] \<rparr>)) s'"
        by (rule Suc.IH)
      then show "quiet 0 r s1 s'" by (rule quiet_wait)
    qed
    then show ?thesis by (rule quiet_gc)
  qed
qed

lemma measureMemory_quiet:
  assumes "measureMemory env params func dataArray s = (r, s')"
  shows "quiet 0 r s s'"
proof (cases "memoryMeasurementsCount params")
  case None
  with assms show ?thesis by (auto simp: measureMemory_def)
next
  case (Some passes)
  show ?thesis
  proof (cases "passes > 0")
    case False
    with assms Some show ?thesis by (auto simp: measureMemory_def)
  next
    case True
    with assms Some
    have b: "bindR (if rf_isAsync func
                   then awaited env (measureSeriesMemoryAsync env passes dataArray (rf_fn func) s)
                   else measureSeriesMemory env passes dataArray (rf_fn func) s)
              (\<lambda>memoryUsages s1. (Inr (Some memoryUsages), s1)) = (r, s')"
      by (simp add: measureMemory_def)
    show ?thesis
      by (rule bindR_quiet0 [OF b]) (auto intro: measuredMemory_quiet)
  qed
qed

lemma evaluateShared_quiet:
  "evaluateShared env fn dataArray vals s = (r, s') \<Longrightarrow> quiet 0 r s s'"
proof (induction dataArray arbitrary: vals s)
  case Nil
  then show ?case by auto
next
  case (Cons d rest)
  from Cons.prems
  have b: "bindR (callTarget env fn (Some d) s)
             (\<lambda>v s1. evaluateShared env fn rest (vals @ [v]) s1) = (r, s')"
    by simp
  show ?case
    by (rule bindR_quiet0 [OF b]) (auto intro: callTarget_quiet Cons.IH)
qed

lemma evaluateFresh_quiet:
  "evaluateFresh env customEval dataSize k vals s = (r, s') \<Longrightarrow> quiet k r s s'"
proof (induction k arbitrary: vals s)
  case 0
  then show ?case by auto
next
  case (Suc k)
  from Suc.prems
  have b: "bindR (callGenerator env (ce_dataGenerator customEval) dataSize s)
       (\<lambda>d s1. bindR (callTarget env (ce_fn customEval) (Some d) s1)
                  (\<lambda>v s2. evaluateFresh env customEval dataSize k (vals @ [v]) s2)) = (r, s')"
    by simp
  have "quiet (1 + k) r s s'"
  proof (rule bindR_quiet [OF b])
    fix r1 s1
    assume "callGenerator env (ce_dataGenerator customEval) dataSize s = (r1, s1)"
    then show "quiet 1 r1 s s1" by (rule callGenerator_quiet)
  next
    fix d s1
    assume c: "bindR (callTarget env (ce_fn customEval) (Some d) s1)
                  (\<lambda>v s2. evaluateFresh env customEval dataSize k (vals @ [v]) s2) = (r, s')"
    show "quiet k r s1 s'"
      by (rule bindR_quiet0 [OF c]) (auto intro: callTarget_quiet Suc.IH)
  qed
  then show ?case by simp
qed

section \<open>One item at one data size\<close>


lemma step_quiet_currentStep:
  assumes "step r s s'" and "emitted (trace s') = emitted (trace s)"
  shows "currentStep s' = currentStep s"
proof -
  from assms(1) obtain ext where e: "trace s' = trace s @ ext"
    "currentStep s' = currentStep s + sum_list (map ev_dataSize (emitted ext))"
    by (auto simp: step_def)
  from e(1) assms(2) have "emitted ext = []" by simp
  with e(2) show ?thesis by simp
qed

lemma dataArray_quiet:
  "(case sharedDataArray of
      Some dataArray \<Rightarrow> (Inr dataArray, s)
    | None \<Rightarrow> generateData env g dataSize n [] s) = (r, s') \<Longrightarrow>
   quiet (case sharedDataArray of Some dataArray \<Rightarrow> 0 | None \<Rightarrow> n) r s s'"
  by (cases sharedDataArray) (auto intro: generateData_quiet)

lemma emit_outcome:
  assumes "emitted (trace s3) = emitted (trace s)"
    and "generatorCalls (trace s3) = generatorCalls (trace s) + n"
    and "shapeOf ev = shape" and "ev_progress ev = p"
  shows "(\<exists>ev'. emitted (trace (emit env ev s3)) = emitted (trace s) @ [ev'] \<and>
                shapeOf ev' = shape \<and> ev_progress ev' = p) \<and>
         generatorCalls (trace (emit env ev s3)) = generatorCalls (trace s) + n"
proof -
  obtain calls where t: "trace (emit env ev s3) = trace s3 @ Emitted ev # map Received calls"
    using trace_emit by blast
  show ?thesis using assms by (simp add: t)
qed

lemma runMeasureItem_outcome:
  assumes run: "runMeasureItem env params stepsTotal sharedDataArray dataSize item func s = (r, s')"
    and item: "payload item = MeasureItem func"
  shows "itemOutcome params stepsTotal sharedDataArray dataSize item r s s'"
  using run [unfolded runMeasureItem_def]
proof (cases rule: bindR_E)
  case (throws e)
  then show ?thesis using dataArray_quiet [OF throws(1)] by (simp add: itemOutcome_def quiet_def)
next
  case (returns dataArray s1)
  note q1 = dataArray_quiet [OF returns(1)]
  note st1 = dataArray_step [OF returns(1)]
  from returns(2) show ?thesis
  proof (cases rule: bindR_E)
    case (throws e)
    then show ?thesis using q1 runSeries_quiet [OF throws(1)]
      by (simp add: itemOutcome_def quiet_def)
  next
    case (returns durations s2)
    note q2 = runSeries_quiet [OF returns(1)]
    note st2 = runSeries_step [OF returns(1)]
    from returns(2) show ?thesis
    proof (cases rule: bindR_E)
      case (throws e)
      then show ?thesis using q1 q2 measureMemory_quiet [OF throws(1)]
        by (simp add: itemOutcome_def quiet_def)
    next
      case (returns memoryUsages s3)
      note q3 = measureMemory_quiet [OF returns(1)]
      note st3 = measureMemory_step [OF returns(1)]
      have em: "emitted (trace s3) = emitted (trace s)"
        using q1 q2 q3 by (simp add: quiet_def)
      have gc: "generatorCalls (trace s3) = generatorCalls (trace s) +
          (case sharedDataArray of Some dataArray \<Rightarrow> 0 | None \<Rightarrow> dataUnitsCount params)"
        using q1 q2 q3 by (simp add: quiet_def)
      have "step (Inr memoryUsages) s s3"
        using step_trans [OF st1 step_trans [OF st2 st3]] .
      then have cs: "currentStep s3 = currentStep s"
        using em by (rule step_quiet_currentStep)
      from returns(2) have r: "r = Inr ()" and s': "s' = emit env
          \<lparr> ev_path = rf_path func, ev_title = title item, ev_dataSize = dataSize,
            ev_progress = progressOf (currentStep s3 + dataSize) stepsTotal,
            ev_result = Some (measurementResult (rf_path func) (title item) dataSize
                                   durations (seriesSize params) memoryUsages),
            ev_customResult = None \<rparr> (s3\<lparr> currentStep := currentStep s3 + dataSize \<rparr>)"
        by (auto simp: Let_def)
      show ?thesis
        unfolding itemOutcome_def r s' sum.case
        by (rule emit_outcome)
           (simp_all add: em gc cs shapeOf_def unitShape_def itemPath_def item)
    qed
  qed
qed

lemma runEvaluateItem_outcome:
  assumes run: "runEvaluateItem env params stepsTotal sharedDataArray dataSize item customEval s = (r, s')"
    and item: "payload item = EvaluateItem customEval"
  shows "itemOutcome params stepsTotal sharedDataArray dataSize item r s s'"
  using run [unfolded runEvaluateItem_def]
proof (cases rule: bindR_E)
  case (throws e)
  then have "quiet (case sharedDataArray of Some dataArray \<Rightarrow> 0 | None \<Rightarrow> dataUnitsCount params)
      (Inl e :: error + rat list) s s'"
    by (cases sharedDataArray) (auto intro: evaluateShared_quiet evaluateFresh_quiet)
  with throws show ?thesis by (simp add: itemOutcome_def quiet_def)
next
  case (returns vals s1)
  then have q1: "quiet (case sharedDataArray of Some dataArray \<Rightarrow> 0 | None \<Rightarrow> dataUnitsCount params)
      (Inr vals) s s1"
    by (cases sharedDataArray) (auto intro: evaluateShared_quiet evaluateFresh_quiet)
  from returns have st1: "step (Inr vals) s s1"
    by (cases sharedDataArray) (auto intro: evaluateShared_step evaluateFresh_step)
  have em: "emitted (trace s1) = emitted (trace s)" using q1 by (simp add: quiet_def)
  have gc: "generatorCalls (trace s1) = generatorCalls (trace s) +
          (case sharedDataArray of Some dataArray \<Rightarrow> 0 | None \<Rightarrow> dataUnitsCount params)"
    using q1 by (simp add: quiet_def)
  have cs: "currentStep s1 = currentStep s"
    using st1 em by (rule step_quiet_currentStep)
  from returns(2) have r: "r = Inr ()" and s': "s' = emit env
          \<lparr> ev_path = ce_path customEval, ev_title = title item, ev_dataSize = dataSize,
            ev_progress = progressOf (currentStep s1 + dataSize) stepsTotal,
            ev_result = None,
            ev_customResult = Some (customResult (ce_path customEval) (title item) dataSize vals
                         (ce_customChart customEval)) \<rparr>
          (s1\<lparr> currentStep := currentStep s1 + dataSize \<rparr>)"
    by (auto simp: Let_def)
  show ?thesis
    unfolding itemOutcome_def r s' sum.case
    by (rule emit_outcome)
       (simp_all add: em gc cs shapeOf_def unitShape_def itemPath_def item)
qed

lemma runItem_outcome:
  "runItem env params stepsTotal sharedDataArray dataSize item s = (r, s') \<Longrightarrow>
   itemOutcome params stepsTotal sharedDataArray dataSize item r s s'"
  by (cases "payload item")
     (auto simp: runItem_def intro: runMeasureItem_outcome runEvaluateItem_outcome)

section \<open>Runs that no control call reaches\<close>


lemma step_calm:
  assumes "step r s s'" and "received (trace s') = received (trace s)"
  shows "stopRequested s' = stopRequested s" and "skippedSubGroups s' = skippedSubGroups s"
proof -
  from assms(1) obtain ext where e: "trace s' = trace s @ ext"
    "stopRequested s' = (stopRequested s \<or> StopCall \<in> set (received ext))"
    "skippedSubGroups s' = skippedSubGroups s \<union> skipKeys (received ext)"
    by (auto simp: step_def)
  from e(1) assms(2) have "received ext = []" by simp
  with e(2,3) show "stopRequested s' = stopRequested s"
    and "skippedSubGroups s' = skippedSubGroups s" by simp_all
qed

lemma step_calm_mid:
  assumes "step r1 s s1" and "step r2 s1 s'" and "received (trace s') = received (trace s)"
  shows "received (trace s1) = received (trace s)" and "received (trace s') = received (trace s1)"
proof -
  from assms(1) obtain e1 where e1: "trace s1 = trace s @ e1" by (auto simp: step_def)
  from assms(2) obtain e2 where e2: "trace s' = trace s1 @ e2" by (auto simp: step_def)
  from e1 e2 assms(3) have "received e1 @ received e2 = []" by simp
  then show "received (trace s1) = received (trace s)"
    and "received (trace s') = received (trace s1)" using e1 e2 by simp_all
qed

lemma isSkipped_cong: "skippedSubGroups s' = skippedSubGroups s \<Longrightarrow> isSkipped key s' = isSkipped key s"
  by (cases key) (simp_all add: isSkipped_def)

lemma forItems_complete:
  assumes "forItems env params stepsTotal key sharedDataArray dataSize items s = (Inr (), s')"
    and "received (trace s') = received (trace s)"
    and "\<not> stopRequested s" and "\<not> isSkipped key s"
  shows "map shapeOf (emitted (trace s')) =
           map shapeOf (emitted (trace s)) @ map (\<lambda>item. unitShape item dataSize) items \<and>
         generatorCalls (trace s') =
           generatorCalls (trace s) +
           length items * (case sharedDataArray of Some dataArray \<Rightarrow> 0 | None \<Rightarrow> dataUnitsCount params)"
  using assms
proof (induction items arbitrary: s)
  case Nil
  then show ?case by simp
next
  case (Cons item items)
  from Cons.prems(1,3,4)
  have b: "bindR (runItem env params stepsTotal sharedDataArray dataSize item s)
             (\<lambda>u s1. forItems env params stepsTotal key sharedDataArray dataSize items s1)
           = (Inr (), s')"
    by simp
  from b show ?case
  proof (cases rule: bindR_E)
    case (throws e)
    then show ?thesis by simp
  next
    case (returns u s1)
    note st1 = runItem_step [OF returns(1)]
    note st2 = forItems_step [OF returns(2)]
    note mid = step_calm_mid [OF st1 st2 Cons.prems(2)]
    note calm = step_calm [OF st1 mid(1)]
    have io: "itemOutcome params stepsTotal sharedDataArray dataSize item (Inr u) s s1"
      by (rule runItem_outcome [OF returns(1)])
    have ih: "map shapeOf (emitted (trace s')) =
           map shapeOf (emitted (trace s1)) @ map (\<lambda>item. unitShape item dataSize) items \<and>
         generatorCalls (trace s') =
           generatorCalls (trace s1) +
           length items * (case sharedDataArray of Some dataArray \<Rightarrow> 0 | None \<Rightarrow> dataUnitsCount params)"
      using Cons.IH [OF returns(2) mid(2)] calm Cons.prems(3,4) isSkipped_cong [OF calm(2)]
      by simp
    from io ih show ?thesis by (auto simp: itemOutcome_def)
  qed
qed

lemma sharedData_quiet:
  "(if allUseSameGenerator
    then bindR (generateData env g dataSize n [] s) (\<lambda>dataArray s1. (Inr (Some dataArray), s1))
    else (Inr None, s)) = (Inr shared, s') \<Longrightarrow>
   quiet (if allUseSameGenerator then n else 0) (Inr shared) s s' \<and>
   (shared = None) = (\<not> allUseSameGenerator)"
proof (cases allUseSameGenerator)
  case False
  then show "(if allUseSameGenerator
    then bindR (generateData env g dataSize n [] s) (\<lambda>dataArray s1. (Inr (Some dataArray), s1))
    else (Inr None, s)) = (Inr shared, s') \<Longrightarrow>
   quiet (if allUseSameGenerator then n else 0) (Inr shared) s s' \<and>
   (shared = None) = (\<not> allUseSameGenerator)" by auto
next
  case True
  assume "(if allUseSameGenerator
    then bindR (generateData env g dataSize n [] s) (\<lambda>dataArray s1. (Inr (Some dataArray), s1))
    else (Inr None, s)) = (Inr shared, s')"
  with True have b: "bindR (generateData env g dataSize n [] s)
      (\<lambda>dataArray s1. (Inr (Some dataArray), s1)) = (Inr shared, s')" by simp
  from b show "quiet (if allUseSameGenerator then n else 0) (Inr shared) s s' \<and>
   (shared = None) = (\<not> allUseSameGenerator)"
  proof (cases rule: bindR_E)
    case (throws e)
    then show ?thesis by simp
  next
    case (returns dataArray s1)
    then show ?thesis using generateData_quiet [OF returns(1)] True
      by (auto simp: quiet_def)
  qed
qed

lemma forDataSizes_complete:
  assumes "forDataSizes env params stepsTotal key items g same sizes s = (Inr (), s')"
    and "received (trace s') = received (trace s)"
    and "\<not> stopRequested s" and "\<not> isSkipped key s"
  shows "map shapeOf (emitted (trace s')) =
           map shapeOf (emitted (trace s)) @
           concat (map (\<lambda>dataSize. map (\<lambda>item. unitShape item dataSize) items) sizes) \<and>
         generatorCalls (trace s') =
           generatorCalls (trace s) +
           length sizes * (if same then dataUnitsCount params
                           else length items * dataUnitsCount params)"
  using assms
proof (induction sizes arbitrary: s)
  case Nil
  then show ?case by simp
next
  case (Cons dataSize sizes)
  from Cons.prems(1,3,4)
  have b: "bindR (if same
               then bindR (generateData env g dataSize (dataUnitsCount params) [] s)
                      (\<lambda>dataArray s1. (Inr (Some dataArray), s1))
               else (Inr None, s))
          (\<lambda>sharedDataArray s1.
             bindR (forItems env params stepsTotal key sharedDataArray dataSize items s1)
               (\<lambda>u s2. forDataSizes env params stepsTotal key items g same sizes s2))
         = (Inr (), s')"
    by simp
  from b show ?case
  proof (cases rule: bindR_E)
    case (throws e)
    then show ?thesis by simp
  next
    case (returns shared s1)
    note st1 = sharedData_step [OF returns(1)]
    note q1 = sharedData_quiet [OF returns(1)]
    from returns(2) show ?thesis
    proof (cases rule: bindR_E)
      case (throws e)
      then show ?thesis by simp
    next
      case inner: (returns u s2)
      from inner(1)
      have run2: "forItems env params stepsTotal key shared dataSize items s1 = (Inr (), s2)"
        by simp
      note st2 = forItems_step [OF run2]
      note st3 = forDataSizes_step [OF inner(2)]
      have st23: "step (Inr ()) s1 s'" by (rule step_trans [OF st2 st3])
      note mid1 = step_calm_mid [OF st1 st23 Cons.prems(2)]
      note mid2 = step_calm_mid [OF st2 st3 mid1(2)]
      note calm1 = step_calm [OF st1 mid1(1)]
      note calm2 = step_calm [OF st2 mid2(1)]
      have fi: "map shapeOf (emitted (trace s2)) =
           map shapeOf (emitted (trace s1)) @ map (\<lambda>item. unitShape item dataSize) items \<and>
         generatorCalls (trace s2) =
           generatorCalls (trace s1) +
           length items * (case shared of Some dataArray \<Rightarrow> 0 | None \<Rightarrow> dataUnitsCount params)"
        using forItems_complete [OF run2 mid2(1)] calm1 Cons.prems(3,4)
          isSkipped_cong [OF calm1(2)] by simp
      have ih: "map shapeOf (emitted (trace s')) =
           map shapeOf (emitted (trace s2)) @
           concat (map (\<lambda>dataSize. map (\<lambda>item. unitShape item dataSize) items) sizes) \<and>
         generatorCalls (trace s') =
           generatorCalls (trace s2) +
           length sizes * (if same then dataUnitsCount params
                           else length items * dataUnitsCount params)"
        using Cons.IH [OF inner(2) mid2(2)] calm1 calm2 Cons.prems(3,4)
          isSkipped_cong [OF calm1(2)] isSkipped_cong [OF calm2(2)] by simp
      from q1 have e1: "emitted (trace s1) = emitted (trace s)"
        and g1: "generatorCalls (trace s1) =
                 generatorCalls (trace s) + (if same then dataUnitsCount params else 0)"
        and sh: "(shared = None) = (\<not> same)"
        by (simp_all add: quiet_def)
      from fi ih e1 g1 sh show ?thesis
        by (cases shared; cases same) (simp_all add: algebra_simps)
    qed
  qed
qed

lemma forPathKeys_complete:
  assumes "forPathKeys env params stepsTotal byKey keys s = (Inr (), s')"
    and "received (trace s') = received (trace s)"
    and "\<not> stopRequested s" and "\<forall>key \<in> set keys. \<not> isSkipped key s"
  shows "map shapeOf (emitted (trace s')) =
           map shapeOf (emitted (trace s)) @
           concat (map (\<lambda>key. concat (map (\<lambda>dataSize. map (\<lambda>item. unitShape item dataSize)
                                                     (itemsOf byKey key))
                                        (dataUnitSizes params))) keys) \<and>
         generatorCalls (trace s') =
           generatorCalls (trace s) +
           sum_list (map (\<lambda>key. groupGeneratorCalls params (itemsOf byKey key)) keys)"
  using assms
proof (induction keys arbitrary: s)
  case Nil
  then show ?case by simp
next
  case (Cons key keys)
  show ?case
  proof (cases "itemsOf byKey key")
    case Nil
    with Cons.prems(1,3)
    have "forPathKeys env params stepsTotal byKey keys s = (Inr (), s')" by simp
    from Cons.IH [OF this Cons.prems(2,3)] Cons.prems(4) Nil
    show ?thesis by (simp add: groupGeneratorCalls_def)
  next
    case (Cons firstItem others)
    let ?g = "itemGenerator firstItem"
    let ?same = "list_all (\<lambda>item. itemGenerator item = ?g) (firstItem # others)"
    from Cons.prems(4) have notSkipped: "\<not> isSkipped key s" by simp
    from Cons.prems(1,3) Cons notSkipped
    have b: "bindR (forDataSizes env params stepsTotal key (firstItem # others)
                      ?g ?same (dataUnitSizes params) s)
               (\<lambda>u s1. forPathKeys env params stepsTotal byKey keys s1) = (Inr (), s')"
      by (simp add: Let_def)
    from b show ?thesis
    proof (cases rule: bindR_E)
      case (throws e)
      then show ?thesis by simp
    next
      case (returns u s1)
      from returns(1)
      have run1: "forDataSizes env params stepsTotal key (firstItem # others)
                      ?g ?same (dataUnitSizes params) s = (Inr (), s1)" by simp
      note st1 = forDataSizes_step [OF run1]
      note st2 = forPathKeys_step [OF returns(2)]
      note mid = step_calm_mid [OF st1 st2 Cons.prems(2)]
      note calm = step_calm [OF st1 mid(1)]
      note grp = forDataSizes_complete [OF run1 mid(1) Cons.prems(3) notSkipped]
      have "\<forall>key \<in> set keys. \<not> isSkipped key s1"
        using Cons.prems(4) isSkipped_cong [OF calm(2)] by simp
      with Cons.IH [OF returns(2) mid(2)] calm(1) Cons.prems(3)
      have ih: "map shapeOf (emitted (trace s')) =
           map shapeOf (emitted (trace s1)) @
           concat (map (\<lambda>key. concat (map (\<lambda>dataSize. map (\<lambda>item. unitShape item dataSize)
                                                     (itemsOf byKey key))
                                        (dataUnitSizes params))) keys) \<and>
         generatorCalls (trace s') =
           generatorCalls (trace s1) +
           sum_list (map (\<lambda>key. groupGeneratorCalls params (itemsOf byKey key)) keys)"
        by simp
      from grp ih Cons show ?thesis by (simp add: groupGeneratorCalls_def)
    qed
  qed
qed

section \<open>The plan that the run controller builds\<close>


lemma traverse_leaves:
  "traverseNode node acc = acc @ leaves node"
  "traverseChildren children acc = acc @ concat (map leaves children)"
  by (induction node acc and children acc rule: traverseNode_traverseChildren.induct) simp_all

lemma unifyNodes_sorted:
  "sorted (map registrationIndex acc) \<Longrightarrow> \<forall>i \<in> set acc. registrationIndex i < n \<Longrightarrow>
   sorted (map registrationIndex (unifyNodes fbp ebp nodes n acc))"
proof (induction nodes arbitrary: n acc)
  case Nil
  then show ?case by simp
next
  case (Cons node nodes)
  have ext: "\<And>item. registrationIndex item = n \<Longrightarrow>
      sorted (map registrationIndex (unifyNodes fbp ebp nodes (n + 1) (acc @ [item])))"
  proof -
    fix item :: UnifiedItem
    assume i: "registrationIndex item = n"
    have "sorted (map registrationIndex (acc @ [item]))"
      using Cons.prems i by (auto simp: sorted_append less_imp_le)
    moreover have "\<forall>j \<in> set (acc @ [item]). registrationIndex j < n + 1"
      using Cons.prems(2) i by auto
    ultimately show "sorted (map registrationIndex (unifyNodes fbp ebp nodes (n + 1) (acc @ [item])))"
      by (rule Cons.IH)
  qed
  have keep: "sorted (map registrationIndex (unifyNodes fbp ebp nodes n acc))"
    using Cons.prems by (rule Cons.IH)
  show ?case
    using ext keep by (auto simp: Let_def split: leafType.splits option.splits)
qed

lemma unifiedItems_sorted: "sorted (map registrationIndex (unifiedItems reg config))"
  unfolding unifiedItems_def by (rule unifyNodes_sorted) simp_all

lemma fold_group:
  "fold (\<lambda>item m.
           case m (pathKey item) of
             None \<Rightarrow> m(pathKey item \<mapsto> [item])
           | Some bucket \<Rightarrow> m(pathKey item \<mapsto> bucket @ [item]))
        items m key =
   (case m key of
      None \<Rightarrow> (if filter (\<lambda>item. pathKey item = key) items = [] then None
                else Some (filter (\<lambda>item. pathKey item = key) items))
    | Some bucket \<Rightarrow> Some (bucket @ filter (\<lambda>item. pathKey item = key) items))"
proof (induction items arbitrary: m)
  case Nil
  then show ?case by (simp split: option.splits)
next
  case (Cons item items)
  show ?case
    by (cases "m (pathKey item)"; cases "m key") (auto simp: Cons.IH)
qed

lemma itemsOf_itemsByPathKey:
  assumes "sorted (map registrationIndex items)"
  shows "itemsOf (itemsByPathKey items) key = filter (\<lambda>item. pathKey item = key) items"
proof -
  have "sort_key registrationIndex (filter (\<lambda>item. pathKey item = key) items) =
        filter (\<lambda>item. pathKey item = key) items"
    by (rule sort_key_id_if_sorted) (rule sorted_filter [OF assms])
  then show ?thesis
    by (simp add: itemsOf_def itemsByPathKey_def groupByPathKey_def fold_group)
qed

lemma collectPathKeys_firstOccurrences:
  "collectPathKeys items seen acc =
     acc @ firstOccurrences (filter (\<lambda>key. key \<notin> seen) (map pathKey items))"
proof (induction items arbitrary: seen acc)
  case Nil
  then show ?case by simp
next
  case (Cons item items)
  have "filter (\<lambda>y. y \<noteq> pathKey item) (filter (\<lambda>key. key \<notin> seen) (map pathKey items)) =
        filter (\<lambda>key. key \<notin> insert (pathKey item) seen) (map pathKey items)"
    by (auto intro: filter_cong)
  then show ?case by (simp add: Cons.IH)
qed

lemma allPathKeys_firstOccurrences:
  "allPathKeys items = firstOccurrences (map pathKey items)"
  by (simp add: allPathKeys_def collectPathKeys_firstOccurrences)

lemma set_firstOccurrences [simp]: "set (firstOccurrences xs) = set xs"
  by (induction xs rule: firstOccurrences.induct) auto

lemma distinct_firstOccurrences [simp]: "distinct (firstOccurrences xs)"
  by (induction xs rule: firstOccurrences.induct) auto





lemma concat_map_if:
  "concat (map (\<lambda>x. if P x then [g x] else []) xs) = map g (filter P xs)"
  by (induction xs) simp_all

lemma plannedUnits_concat:
  "map (\<lambda>(item, dataSize). unitShape item dataSize) (plannedUnits items sizes) =
   concat (map (\<lambda>key. concat (map (\<lambda>dataSize. map (\<lambda>item. unitShape item dataSize)
                                     (filter (\<lambda>item. pathKey item = key) items)) sizes))
            (firstOccurrences (map pathKey items)))"
  by (simp add: plannedUnits_def concat_map_if map_concat comp_def)

lemma runMeasurements_complete:
  assumes run: "runMeasurements env reg config s = (Inr (), s')"
    and calm: "received (trace s') = []"
  shows "map shapeOf (emitted (trace s')) =
           map (\<lambda>(item, dataSize). unitShape item dataSize)
             (plannedUnits (unifiedItems reg config)
                (dataUnitSizes (applyOverrides config (globalSettings reg))))"
    and "generatorCalls (trace s') =
           sum_list (map (\<lambda>key. groupGeneratorCalls (applyOverrides config (globalSettings reg))
                                  (filter (\<lambda>item. pathKey item = key) (unifiedItems reg config)))
                      (firstOccurrences (map pathKey (unifiedItems reg config))))"
proof -
  let ?params = "applyOverrides config (globalSettings reg)"
  let ?items = "unifiedItems reg config"
  let ?s0 = "s\<lparr> stopRequested := False, skippedSubGroups := {}, trace := [], currentStep := 0 \<rparr>"
  from run have loop: "forPathKeys env ?params (totalSteps (dataUnitSizes ?params) ?items)
      (itemsByPathKey ?items) (allPathKeys ?items) ?s0 = (Inr (), s')"
    by (simp add: runMeasurements_def Let_def)
  have c: "received (trace s') = received (trace ?s0)" using calm by simp
  have ns: "\<not> stopRequested ?s0" by simp
  have nk: "\<forall>key \<in> set (allPathKeys ?items). \<not> isSkipped key ?s0"
    by (auto simp: isSkipped_def split: option.splits)
  note all = forPathKeys_complete [OF loop c ns nk]
  note io = itemsOf_itemsByPathKey [OF unifiedItems_sorted]
  from all show "map shapeOf (emitted (trace s')) =
           map (\<lambda>(item, dataSize). unitShape item dataSize)
             (plannedUnits ?items (dataUnitSizes ?params))"
    by (simp add: io allPathKeys_firstOccurrences plannedUnits_concat)
  from all show "generatorCalls (trace s') =
           sum_list (map (\<lambda>key. groupGeneratorCalls ?params
                                  (filter (\<lambda>item. pathKey item = key) ?items))
                      (firstOccurrences (map pathKey ?items)))"
    by (simp add: io allPathKeys_firstOccurrences)
qed

lemma count_list_pair_map:
  "count_list (map (\<lambda>item. (item, b)) xs) (a, c) = (if b = c then count_list xs a else 0)"
  by (induction xs) auto

lemma count_list_filter:
  "count_list (filter P xs) a = (if P a then count_list xs a else 0)"
  by (induction xs) auto

lemma sum_list_indicator:
  "sum_list (map (\<lambda>b. if b = c then (n :: nat) else 0) ys) = count_list ys c * n"
  by (induction ys) auto

lemma sum_list_key_indicator:
  "distinct ks \<Longrightarrow> sum_list (map (\<lambda>k. if y = k then (n :: nat) else 0) ks) = (if y \<in> set ks then n else 0)"
  by (induction ks) auto

lemma plannedUnits_count:
  "count_list (plannedUnits items sizes) (item, dataSize) =
     count_list items item * count_list sizes dataSize"
proof -
  have inner: "\<And>key. count_list
        (concat (map (\<lambda>sz. concat (map (\<lambda>i. if pathKey i = key then [(i, sz)] else []) items)) sizes))
        (item, dataSize) =
      (if pathKey item = key then count_list items item * count_list sizes dataSize else 0)"
    by (simp add: count_list_concat comp_def concat_map_if count_list_pair_map
        count_list_filter sum_list_indicator)
  have "count_list (plannedUnits items sizes) (item, dataSize) =
        sum_list (map (\<lambda>key. if pathKey item = key
                              then count_list items item * count_list sizes dataSize else 0)
                   (firstOccurrences (map pathKey items)))"
    unfolding plannedUnits_def
    by (subst count_list_concat) (simp add: comp_def inner)
  also have "\<dots> = (if pathKey item \<in> set (map pathKey items)
                    then count_list items item * count_list sizes dataSize else 0)"
    by (simp add: sum_list_key_indicator)
  also have "\<dots> = count_list items item * count_list sizes dataSize"
    by (auto simp: count_list_0_iff)
  finally show ?thesis .
qed

section \<open>The order of the emitted events\<close>


lemma unifyNodes_strict:
  "sorted_wrt (<) (map registrationIndex acc) \<Longrightarrow> \<forall>i \<in> set acc. registrationIndex i < n \<Longrightarrow>
   sorted_wrt (<) (map registrationIndex (unifyNodes fbp ebp nodes n acc))"
proof (induction nodes arbitrary: n acc)
  case Nil
  then show ?case by simp
next
  case (Cons node nodes)
  have ext: "\<And>item. registrationIndex item = n \<Longrightarrow>
      sorted_wrt (<) (map registrationIndex (unifyNodes fbp ebp nodes (n + 1) (acc @ [item])))"
  proof -
    fix item :: UnifiedItem
    assume i: "registrationIndex item = n"
    have "sorted_wrt (<) (map registrationIndex (acc @ [item]))"
      using Cons.prems i by (auto simp: sorted_wrt_append)
    moreover have "\<forall>j \<in> set (acc @ [item]). registrationIndex j < n + 1"
      using Cons.prems(2) i by auto
    ultimately show "sorted_wrt (<) (map registrationIndex (unifyNodes fbp ebp nodes (n + 1) (acc @ [item])))"
      by (rule Cons.IH)
  qed
  have keep: "sorted_wrt (<) (map registrationIndex (unifyNodes fbp ebp nodes n acc))"
    using Cons.prems by (rule Cons.IH)
  show ?case
    using ext keep by (auto simp: Let_def split: leafType.splits option.splits)
qed

lemma unifiedItems_distinct: "distinct (unifiedItems reg config)"
proof -
  have "sorted_wrt (<) (map registrationIndex (unifiedItems reg config))"
    unfolding unifiedItems_def by (rule unifyNodes_strict) simp_all
  then have "distinct (map registrationIndex (unifiedItems reg config))"
    by (simp add: strict_sorted_iff)
  then show ?thesis by (simp add: distinct_map)
qed

lemma distinct_count_le: "distinct xs \<Longrightarrow> count_list xs x \<le> 1"
  by (induction xs) (auto simp: count_list_0_iff)

lemma count_le_distinct: "(\<And>x. count_list xs x \<le> 1) \<Longrightarrow> distinct xs"
proof (induction xs)
  case Nil
  then show ?case by simp
next
  case (Cons a xs)
  from Cons.prems [of a] have "count_list xs a = 0" by simp
  then have "a \<notin> set xs" by (simp add: count_list_0_iff)
  moreover have "\<And>x. count_list xs x \<le> 1"
  proof -
    fix x
    have "count_list xs x \<le> count_list (a # xs) x" by simp
    also have "\<dots> \<le> 1" by (rule Cons.prems)
    finally show "count_list xs x \<le> 1" .
  qed
  ultimately show ?case using Cons.IH by simp
qed

lemma unifyNodes_leaves:
  "map (\<lambda>item. (pathKey item, title item)) (unifyNodes fbp ebp nodes n acc) =
   map (\<lambda>item. (pathKey item, title item)) acc @
   map (\<lambda>node. (keyPath (on_path node), on_title node)) (filter (isPlanned fbp ebp) nodes)"
  by (induction nodes arbitrary: n acc)
     (auto simp: Let_def isPlanned_def split: leafType.splits option.splits)

lemma unifiedItems_leaves:
  "map (\<lambda>item. (pathKey item, title item)) (unifiedItems reg config) =
   map (\<lambda>node. (keyPath (on_path node), on_title node))
     (filter (isPlanned (functionByPath (filteredFunctions config (registeredFunctions reg)))
                        (evalByPath (filteredEvals config (customEvaluations reg))))
        (leaves (rootNode reg)))"
  by (simp add: unifiedItems_def unifyNodes_leaves traverse_leaves)

lemma plannedUnits_distinct:
  assumes "distinct items" and "distinct sizes"
  shows "distinct (plannedUnits items sizes)"
proof (rule count_le_distinct)
  fix p :: "UnifiedItem \<times> nat"
  obtain item dataSize where p: "p = (item, dataSize)" by (cases p)
  have i: "count_list items item \<le> 1" and z: "count_list sizes dataSize \<le> 1"
    by (rule distinct_count_le [OF assms(1)], rule distinct_count_le [OF assms(2)])
  show "count_list (plannedUnits items sizes) p \<le> 1"
    unfolding p plannedUnits_count using mult_le_mono [OF i z] by simp
qed

text \<open>
  Claim C1 (amended). For every run of \<^verbatim>\<open>runMeasurements\<close> that returns normally and
  that no control call reaches, the shapes (path, title, data size) of the emitted events
  are exactly those of the planned units in their order: for each owner path key in order
  of first appearance among the planned leaves, which are the leaves of the depth-first,
  children-in-declaration-order traversal whose joined path is registered, then for each
  entry of the configured data sizes in configured order, then for each leaf of that key
  in plan order. A pair of a leaf and a data size is planned as many times as the leaf
  occurs in the plan times the size occurs among the configured sizes; the leaves of the
  plan are pairwise distinct, so no pair is planned twice when the configured sizes are
  pairwise distinct.
\<close>

theorem runMeasurements_order:
  assumes "runMeasurements env reg config s = (Inr (), s')"
    and "received (trace s') = []"
  shows "map shapeOf (emitted (trace s')) =
           map (\<lambda>(item, dataSize). unitShape item dataSize)
             (plannedUnits (unifiedItems reg config)
                (dataUnitSizes (applyOverrides config (globalSettings reg)))) \<and>
         map (\<lambda>item. (pathKey item, title item)) (unifiedItems reg config) =
           map (\<lambda>node. (keyPath (on_path node), on_title node))
             (filter (isPlanned (functionByPath (filteredFunctions config (registeredFunctions reg)))
                                (evalByPath (filteredEvals config (customEvaluations reg))))
                (leaves (rootNode reg))) \<and>
         (\<forall>item dataSize.
            count_list (plannedUnits (unifiedItems reg config)
                (dataUnitSizes (applyOverrides config (globalSettings reg)))) (item, dataSize) =
            count_list (unifiedItems reg config) item *
            count_list (dataUnitSizes (applyOverrides config (globalSettings reg))) dataSize) \<and>
         distinct (unifiedItems reg config) \<and>
         (distinct (dataUnitSizes (applyOverrides config (globalSettings reg))) \<longrightarrow>
          distinct (plannedUnits (unifiedItems reg config)
                (dataUnitSizes (applyOverrides config (globalSettings reg)))))"
  using runMeasurements_complete(1) [OF assms] unifiedItems_leaves [of reg config]
    plannedUnits_count unifiedItems_distinct [of reg config]
    plannedUnits_distinct [OF unifiedItems_distinct [of reg config]]
  by simp

lemma runGH_returns: "fst (runMeasurements quietEnv registryGH configGH idle) = Inr ()"
  by code_simp

lemma runGH_calm:
  "received (trace (snd (runMeasurements quietEnv registryGH configGH idle))) = []"
  by code_simp

lemma planGH:
  "map (\<lambda>(item, dataSize). unitShape item dataSize)
     (plannedUnits (unifiedItems registryGH configGH)
        (dataUnitSizes (applyOverrides configGH (globalSettings registryGH)))) =
   [(Some [''G'', ''a''], ''a'', 10), (Some [''G'', ''b''], ''b'', 10),
    (Some [''G'', ''a''], ''a'', 20), (Some [''G'', ''b''], ''b'', 20),
    (Some [''H'', ''c''], ''c'', 10), (Some [''H'', ''c''], ''c'', 20)]"
  by code_simp

theorem runMeasurements_order_witness:
  "fst (runMeasurements quietEnv registryGH configGH idle) = Inr () \<and>
   received (trace (snd (runMeasurements quietEnv registryGH configGH idle))) = [] \<and>
   map shapeOf (emitted (trace (snd (runMeasurements quietEnv registryGH configGH idle)))) =
     [(Some [''G'', ''a''], ''a'', 10), (Some [''G'', ''b''], ''b'', 10),
      (Some [''G'', ''a''], ''a'', 20), (Some [''G'', ''b''], ''b'', 20),
      (Some [''H'', ''c''], ''c'', 10), (Some [''H'', ''c''], ''c'', 20)]"
proof -
  have run: "runMeasurements quietEnv registryGH configGH idle =
      (Inr (), snd (runMeasurements quietEnv registryGH configGH idle))"
    using runGH_returns by (simp add: prod_eq_iff)
  show ?thesis
    using runMeasurements_order [OF run runGH_calm] runGH_returns runGH_calm planGH by simp
qed

theorem runMeasurements_order_counterexample:
  "fst (runMeasurements quietEnv registryA configTwice idle) = Inr () \<and>
   stopRequested (snd (runMeasurements quietEnv registryA configTwice idle)) = False \<and>
   received (trace (snd (runMeasurements quietEnv registryA configTwice idle))) = [] \<and>
   map shapeOf (emitted (trace (snd (runMeasurements quietEnv registryA configTwice idle)))) =
     [(Some [''G'', ''a''], ''a'', 10), (Some [''G'', ''b''], ''b'', 10),
      (Some [''G'', ''a''], ''a'', 10), (Some [''G'', ''b''], ''b'', 10)]"
  by code_simp

section \<open>The progress percentage\<close>





















lemma totalGH:
  "length (unifiedItems registryGH configGH) *
     sum_list (dataUnitSizes (applyOverrides configGH (globalSettings registryGH))) = 90"
  by code_simp



section \<open>Shared data generation\<close>












section \<open>Exceptions\<close>


lemma runMeasurements_step:
  assumes "runMeasurements env reg config s = (r, s')"
  shows "step r (s\<lparr> stopRequested := False, skippedSubGroups := {}, trace := [],
                   currentStep := 0 \<rparr>) s'"
  using assms by (auto simp: runMeasurements_def Let_def intro: forPathKeys_step)

text \<open>
  Claim C7. An exception thrown by a data generator or a target function is not caught:
  \<^verbatim>\<open>runMeasurements\<close> throws exactly when a call failed, and then the failed call is the
  first to fail and the last entry of the trace, so that no event is emitted, no wait is
  made and no function is called again after it. The item in whose processing the call
  failed emits no event for that data size.
\<close>

theorem failure_is_fatal:
  "(runMeasurements env reg config s = (r, s') \<longrightarrow>
      (case r of
         Inr u \<Rightarrow> \<not> list_ex isFailedCall (trace s')
       | Inl e \<Rightarrow> trace s' \<noteq> [] \<and> isFailedCall (last (trace s')) \<and>
                  \<not> list_ex isFailedCall (butlast (trace s')))) \<and>
   (runItem env params stepsTotal sharedDataArray dataSize item t = (Inl e', t') \<longrightarrow>
      emitted (trace t') = emitted (trace t))"
proof (intro conjI impI)
  assume "runMeasurements env reg config s = (r, s')"
  from runMeasurements_step [OF this]
  show "case r of
         Inr u \<Rightarrow> \<not> list_ex isFailedCall (trace s')
       | Inl e \<Rightarrow> trace s' \<noteq> [] \<and> isFailedCall (last (trace s')) \<and>
                  \<not> list_ex isFailedCall (butlast (trace s'))"
    by (auto simp: step_def split: sum.splits)
next
  assume "runItem env params stepsTotal sharedDataArray dataSize item t = (Inl e', t')"
  from runItem_outcome [OF this] show "emitted (trace t') = emitted (trace t)"
    by (simp add: itemOutcome_def)
qed

lemma runE_result:
  "fst (runMeasurements throwingEnv registryA configE idle) = Inl (Thrown ''third call'')"
  by code_simp

lemma runE_shapes:
  "map shapeOf (emitted (trace (snd (runMeasurements throwingEnv registryA configE idle)))) =
     [(Some [''G'', ''a''], ''a'', 10)]"
  by code_simp

lemma runE_last:
  "last (trace (snd (runMeasurements throwingEnv registryA configE idle))) = TargetCall 2 False"
  by code_simp

lemma itemE_result:
  "fst (runItem throwingEnv (applyOverrides configE noSettings) 20 (Some [10, 10]) 10
          (unifiedItems registryA configE ! 1) (idle\<lparr> world := 2 \<rparr>)) =
     Inl (Thrown ''third call'')"
  by code_simp

theorem failure_is_fatal_witness:
  "fst (runMeasurements throwingEnv registryA configE idle) = Inl (Thrown ''third call'') \<and>
   last (trace (snd (runMeasurements throwingEnv registryA configE idle))) = TargetCall 2 False \<and>
   isFailedCall (last (trace (snd (runMeasurements throwingEnv registryA configE idle)))) \<and>
   \<not> list_ex isFailedCall (butlast (trace (snd (runMeasurements throwingEnv registryA configE idle)))) \<and>
   map shapeOf (emitted (trace (snd (runMeasurements throwingEnv registryA configE idle)))) =
     [(Some [''G'', ''a''], ''a'', 10)] \<and>
   fst (runItem throwingEnv (applyOverrides configE noSettings) 20 (Some [10, 10]) 10
          (unifiedItems registryA configE ! 1) (idle\<lparr> world := 2 \<rparr>)) =
     Inl (Thrown ''third call'') \<and>
   emitted (trace (snd (runItem throwingEnv (applyOverrides configE noSettings) 20
          (Some [10, 10]) 10 (unifiedItems registryA configE ! 1) (idle\<lparr> world := 2 \<rparr>)))) = []"
proof -
  let ?run = "runMeasurements throwingEnv registryA configE idle"
  let ?item = "runItem throwingEnv (applyOverrides configE noSettings) 20 (Some [10, 10]) 10
          (unifiedItems registryA configE ! 1) (idle\<lparr> world := 2 \<rparr>)"
  have item: "?item = (Inl (Thrown ''third call''), snd ?item)"
    using itemE_result by (simp add: prod_eq_iff)
  from failure_is_fatal [where env = throwingEnv and params = "applyOverrides configE noSettings"
      and stepsTotal = 20 and sharedDataArray = "Some [10, 10]" and dataSize = 10
      and item = "unifiedItems registryA configE ! 1" and t = "idle\<lparr> world := 2 \<rparr>"
      and e' = "Thrown ''third call''" and t' = "snd ?item"] item
  have quietItem: "emitted (trace (snd ?item)) = []" by (simp add: idle_def)
  have run: "?run = (Inl (Thrown ''third call''), snd ?run)"
    using runE_result by (simp add: prod_eq_iff)
  from failure_is_fatal [where env = throwingEnv and reg = registryA and config = configE
      and s = idle and r = "Inl (Thrown ''third call'')" and s' = "snd ?run"] run
  have "isFailedCall (last (trace (snd ?run))) \<and>
        \<not> list_ex isFailedCall (butlast (trace (snd ?run)))"
    by simp
  then show ?thesis using runE_result runE_last runE_shapes itemE_result quietItem by simp
qed

section \<open>Stopping\<close>


lemma received_member: "(c \<in> set (received tr)) = (Received c \<in> set tr)"
  by (induction tr rule: received.induct) auto

lemma step_stopTracked:
  assumes "step r s s'" and "stopTracked s"
  shows "stopTracked s'"
  using assms by (auto simp: step_def stopTracked_def)

lemma emitted_dropWhile_length: "length (emitted (dropWhile P tr)) \<le> length (emitted tr)"
proof (induction tr)
  case Nil
  then show ?case by simp
next
  case (Cons x tr)
  have "length (emitted tr) \<le> length (emitted (x # tr))" by (cases x) simp_all
  with Cons show ?case by auto
qed

lemma afterStop_extend:
  assumes st: "step r s s'" and tracked: "stopTracked s" and ns: "\<not> stopRequested s"
    and le: "length (emitted (trace s')) \<le> length (emitted (trace s)) + n"
  shows "length (afterStop (trace s')) \<le> n"
proof -
  from st obtain ext where ext: "trace s' = trace s @ ext" by (auto simp: step_def)
  from tracked ns have "Received StopCall \<notin> set (trace s)"
    by (simp add: stopTracked_def received_member)
  then have "dropWhile (\<lambda>x. x \<noteq> Received StopCall) (trace s @ ext) =
             dropWhile (\<lambda>x. x \<noteq> Received StopCall) ext"
    by (intro dropWhile_append2) auto
  then have "length (afterStop (trace s')) \<le> length (emitted ext)"
    by (simp add: afterStop_def ext emitted_dropWhile_length)
  moreover from le have "length (emitted ext) \<le> n" by (simp add: ext)
  ultimately show ?thesis by simp
qed

lemma runItem_afterStop:
  assumes run: "runItem env params stepsTotal sharedDataArray dataSize item s = (r, s')"
    and tracked: "stopTracked s" and ns: "\<not> stopRequested s"
  shows "length (afterStop (trace s')) \<le> 1"
proof -
  have "length (emitted (trace s')) \<le> length (emitted (trace s)) + 1"
    using runItem_outcome [OF run] by (cases r) (auto simp: itemOutcome_def)
  then show ?thesis by (rule afterStop_extend [OF runItem_step [OF run] tracked ns])
qed

lemma forItems_afterStop:
  "stopTracked s \<Longrightarrow> length (afterStop (trace s)) \<le> 1 \<Longrightarrow>
   forItems env params stepsTotal key sharedDataArray dataSize items s = (r, s') \<Longrightarrow>
   length (afterStop (trace s')) \<le> 1"
proof (induction items arbitrary: s)
  case Nil
  then show ?case by simp
next
  case (Cons item items)
  show ?case
  proof (cases "stopRequested s \<or> isSkipped key s")
    case True
    with Cons.prems show ?thesis by (auto split: if_splits)
  next
    case False
    with Cons.prems(3)
    have b: "bindR (runItem env params stepsTotal sharedDataArray dataSize item s)
             (\<lambda>u s1. forItems env params stepsTotal key sharedDataArray dataSize items s1) = (r, s')"
      by simp
    from False have ns: "\<not> stopRequested s" by simp
    from b show ?thesis
    proof (cases rule: bindR_E)
      case (throws e)
      then show ?thesis using runItem_afterStop [OF throws(1) Cons.prems(1) ns] by simp
    next
      case (returns u s1)
      note a1 = runItem_afterStop [OF returns(1) Cons.prems(1) ns]
      note t1 = step_stopTracked [OF runItem_step [OF returns(1)] Cons.prems(1)]
      show ?thesis by (rule Cons.IH [OF t1 a1 returns(2)])
    qed
  qed
qed

lemma sharedData_afterStop:
  assumes run: "(if allUseSameGenerator
      then bindR (generateData env g dataSize n [] s) (\<lambda>dataArray s1. (Inr (Some dataArray), s1))
      else (Inr None, s)) = (r, s')"
    and tracked: "stopTracked s" and ns: "\<not> stopRequested s"
  shows "length (afterStop (trace s')) \<le> 1"
proof -
  have "emitted (trace s') = emitted (trace s)"
  proof (cases allUseSameGenerator)
    case False
    with run show ?thesis by simp
  next
    case True
    with run have b: "bindR (generateData env g dataSize n [] s)
        (\<lambda>dataArray s1. (Inr (Some dataArray), s1)) = (r, s')" by simp
    from b show ?thesis
    proof (cases rule: bindR_E)
      case (throws e)
      then show ?thesis using generateData_quiet [OF throws(1)] by (simp add: quiet_def)
    next
      case (returns dataArray s1)
      then show ?thesis using generateData_quiet [OF returns(1)] by (auto simp: quiet_def)
    qed
  qed
  then have "length (emitted (trace s')) \<le> length (emitted (trace s)) + 1" by simp
  then show ?thesis by (rule afterStop_extend [OF sharedData_step [OF run] tracked ns])
qed

lemma forDataSizes_afterStop:
  "stopTracked s \<Longrightarrow> length (afterStop (trace s)) \<le> 1 \<Longrightarrow>
   forDataSizes env params stepsTotal key items g same sizes s = (r, s') \<Longrightarrow>
   length (afterStop (trace s')) \<le> 1"
proof (induction sizes arbitrary: s)
  case Nil
  then show ?case by simp
next
  case (Cons dataSize sizes)
  show ?case
  proof (cases "stopRequested s \<or> isSkipped key s")
    case True
    with Cons.prems show ?thesis by (auto split: if_splits)
  next
    case False
    with Cons.prems(3)
    have b: "bindR (if same
               then bindR (generateData env g dataSize (dataUnitsCount params) [] s)
                      (\<lambda>dataArray s1. (Inr (Some dataArray), s1))
               else (Inr None, s))
          (\<lambda>sharedDataArray s1.
             bindR (forItems env params stepsTotal key sharedDataArray dataSize items s1)
               (\<lambda>u s2. forDataSizes env params stepsTotal key items g same sizes s2)) = (r, s')"
      by simp
    from False have ns: "\<not> stopRequested s" by simp
    from b show ?thesis
    proof (cases rule: bindR_E)
      case (throws e)
      then show ?thesis using sharedData_afterStop [OF throws(1) Cons.prems(1) ns] by simp
    next
      case (returns shared s1)
      note a1 = sharedData_afterStop [OF returns(1) Cons.prems(1) ns]
      note t1 = step_stopTracked [OF sharedData_step [OF returns(1)] Cons.prems(1)]
      from returns(2) show ?thesis
      proof (cases rule: bindR_E)
        case (throws e)
        then show ?thesis using forItems_afterStop [OF t1 a1 throws(1)] by simp
      next
        case inner: (returns u s2)
        note a2 = forItems_afterStop [OF t1 a1 inner(1)]
        note t2 = step_stopTracked [OF forItems_step [OF inner(1)] t1]
        show ?thesis by (rule Cons.IH [OF t2 a2 inner(2)])
      qed
    qed
  qed
qed

lemma forPathKeys_afterStop:
  "stopTracked s \<Longrightarrow> length (afterStop (trace s)) \<le> 1 \<Longrightarrow>
   forPathKeys env params stepsTotal byKey keys s = (r, s') \<Longrightarrow>
   length (afterStop (trace s')) \<le> 1"
proof (induction keys arbitrary: s)
  case Nil
  then show ?case by simp
next
  case (Cons key keys)
  show ?case
  proof (cases "stopRequested s")
    case True
    with Cons.prems show ?thesis by simp
  next
    case False
    show ?thesis
    proof (cases "itemsOf byKey key")
      case Nil
      with Cons.prems(3) False
      have "forPathKeys env params stepsTotal byKey keys s = (r, s')" by simp
      then show ?thesis by (rule Cons.IH [OF Cons.prems(1,2)])
    next
      case (Cons firstItem others)
      show ?thesis
      proof (cases "isSkipped key s")
        case True
        with Cons.prems(3) False Cons
        have "forPathKeys env params stepsTotal byKey keys s = (r, s')" by simp
        then show ?thesis by (rule Cons.IH [OF Cons.prems(1,2)])
      next
        case notSkipped: False
        let ?g = "itemGenerator firstItem"
        let ?same = "list_all (\<lambda>item. itemGenerator item = ?g) (firstItem # others)"
        from Cons.prems(3) False Cons notSkipped
        have b: "bindR (forDataSizes env params stepsTotal key (firstItem # others)
                          ?g ?same (dataUnitSizes params) s)
                   (\<lambda>u s1. forPathKeys env params stepsTotal byKey keys s1) = (r, s')"
          by (simp add: Let_def)
        from b show ?thesis
        proof (cases rule: bindR_E)
          case (throws e)
          then show ?thesis
            using forDataSizes_afterStop [OF Cons.prems(1,2) throws(1)] by simp
        next
          case (returns u s1)
          note a1 = forDataSizes_afterStop [OF Cons.prems(1,2) returns(1)]
          note t1 = step_stopTracked [OF forDataSizes_step [OF returns(1)] Cons.prems(1)]
          show ?thesis by (rule Cons.IH [OF t1 a1 returns(2)])
        qed
      qed
    qed
  qed
qed

lemma runMeasurements_afterStop:
  assumes "runMeasurements env reg config s = (r, s')"
  shows "length (afterStop (trace s')) \<le> 1" and "stopTracked s'"
proof -
  let ?params = "applyOverrides config (globalSettings reg)"
  let ?items = "unifiedItems reg config"
  let ?s0 = "s\<lparr> stopRequested := False, skippedSubGroups := {}, trace := [], currentStep := 0 \<rparr>"
  from assms have loop: "forPathKeys env ?params (totalSteps (dataUnitSizes ?params) ?items)
      (itemsByPathKey ?items) (allPathKeys ?items) ?s0 = (r, s')"
    by (simp add: runMeasurements_def Let_def)
  have t0: "stopTracked ?s0" by (simp add: stopTracked_def)
  have a0: "length (afterStop (trace ?s0)) \<le> 1" by (simp add: afterStop_def)
  show "length (afterStop (trace s')) \<le> 1" by (rule forPathKeys_afterStop [OF t0 a0 loop])
  show "stopTracked s'" by (rule step_stopTracked [OF forPathKeys_step [OF loop] t0])
qed

lemma stop_checkpoints:
  assumes "stopRequested t"
  shows "forPathKeys env params stepsTotal byKey keys t = (Inr (), t)"
    and "forDataSizes env params stepsTotal key items g same sizes t = (Inr (), t)"
    and "forItems env params stepsTotal key sharedDataArray dataSize items t = (Inr (), t)"
    and "runSeries env params func dataArray k durations t = (Inr durations, t)"
proof -
  show "forPathKeys env params stepsTotal byKey keys t = (Inr (), t)"
    using assms by (cases keys) simp_all
  show "forDataSizes env params stepsTotal key items g same sizes t = (Inr (), t)"
    using assms by (cases sizes) simp_all
  show "forItems env params stepsTotal key sharedDataArray dataSize items t = (Inr (), t)"
    using assms by (cases items) simp_all
  show "runSeries env params func dataArray k durations t = (Inr durations, t)"
    using assms by (cases k) simp_all
qed

text \<open>
  Claim C8 (amended). Once \<^verbatim>\<open>stop()\<close> has set the flag, each check point (the start of
  a group, the start of a data size, before a leaf, and before a series) ends its loop at
  once, without a further call, wait or event. The flag is set exactly when a call of
  \<^verbatim>\<open>stop()\<close> has reached the engine during the run, and after such a call a run emits
  at most one more result event, that of the leaf in flight.
\<close>

theorem stop_aborts:
  "(stopRequested t \<longrightarrow>
      forPathKeys env params stepsTotal byKey keys t = (Inr (), t) \<and>
      forDataSizes env params stepsTotal key items g same sizes t = (Inr (), t) \<and>
      forItems env params stepsTotal key sharedDataArray dataSize items t = (Inr (), t) \<and>
      runSeries env params func dataArray k durations t = (Inr durations, t)) \<and>
   stopRequested (stop t) \<and>
   (runMeasurements env reg config s = (r, s') \<longrightarrow>
      length (afterStop (trace s')) \<le> 1 \<and>
      stopRequested s' = (StopCall \<in> set (received (trace s'))))"
proof (intro conjI impI)
  assume st: "stopRequested t"
  show "forPathKeys env params stepsTotal byKey keys t = (Inr (), t)"
    by (rule stop_checkpoints(1) [OF st])
  show "forDataSizes env params stepsTotal key items g same sizes t = (Inr (), t)"
    by (rule stop_checkpoints(2) [OF st])
  show "forItems env params stepsTotal key sharedDataArray dataSize items t = (Inr (), t)"
    by (rule stop_checkpoints(3) [OF st])
  show "runSeries env params func dataArray k durations t = (Inr durations, t)"
    by (rule stop_checkpoints(4) [OF st])
next
  show "stopRequested (stop t)" by (simp add: stop_def)
next
  assume run: "runMeasurements env reg config s = (r, s')"
  show "length (afterStop (trace s')) \<le> 1" by (rule runMeasurements_afterStop(1) [OF run])
  show "stopRequested s' = (StopCall \<in> set (received (trace s')))"
    using runMeasurements_afterStop(2) [OF run] by (simp add: stopTracked_def)
qed

lemma runS_facts:
  "fst (runMeasurements stoppingEnv registryAsync configS idle) = Inr ()"
  "received (trace (snd (runMeasurements stoppingEnv registryAsync configS idle))) = [StopCall]"
  by code_simp+

theorem stop_aborts_witness:
  "fst (runMeasurements stoppingEnv registryAsync configS idle) = Inr () \<and>
   received (trace (snd (runMeasurements stoppingEnv registryAsync configS idle))) = [StopCall] \<and>
   stopRequested (snd (runMeasurements stoppingEnv registryAsync configS idle)) \<and>
   length (afterStop (trace (snd (runMeasurements stoppingEnv registryAsync configS idle)))) \<le> 1 \<and>
   forItems stoppingEnv (applyOverrides configS noSettings) 20 (Some ''G'') (Some [10]) 10
     (unifiedItems registryAsync configS)
     (snd (runMeasurements stoppingEnv registryAsync configS idle)) =
   (Inr (), snd (runMeasurements stoppingEnv registryAsync configS idle))"
proof -
  let ?run = "runMeasurements stoppingEnv registryAsync configS idle"
  have run: "?run = (Inr (), snd ?run)" using runS_facts(1) by (simp add: prod_eq_iff)
  note inst = stop_aborts [where env = stoppingEnv and reg = registryAsync and config = configS
      and s = idle and r = "Inr ()" and s' = "snd ?run" and t = "snd ?run"
      and params = "applyOverrides configS noSettings" and stepsTotal = 20
      and key = "Some ''G''" and sharedDataArray = "Some [10]" and dataSize = 10
      and items = "unifiedItems registryAsync configS"]
  from inst run runS_facts(2)
  have a: "stopRequested (snd ?run)" and b: "length (afterStop (trace (snd ?run))) \<le> 1"
    by simp_all
  from inst a
  have c: "forItems stoppingEnv (applyOverrides configS noSettings) 20 (Some ''G'') (Some [10]) 10
     (unifiedItems registryAsync configS) (snd ?run) = (Inr (), snd ?run)"
    by blast
  from a b c runS_facts(1,2) show ?thesis by simp
qed

theorem stop_aborts_counterexample:
  "fst (runMeasurements stoppingEnv registryAsync configS idle) = Inr () \<and>
   received (trace (snd (runMeasurements stoppingEnv registryAsync configS idle))) = [StopCall] \<and>
   waitsAfterStop (trace (snd (runMeasurements stoppingEnv registryAsync configS idle))) =
     [Wait 1] \<and>
   map shapeOf (afterStop (trace (snd (runMeasurements stoppingEnv registryAsync configS idle)))) =
     [(Some [''G'', ''a''], ''a'', 10)] \<and>
   seriesLengths (afterStop (trace (snd (runMeasurements stoppingEnv registryAsync configS idle)))) =
     [Some 1] \<and>
   seriesCount (applyOverrides configS (globalSettings registryAsync)) = 3"
  by code_simp

section \<open>Skipping\<close>


lemma step_stop_mono: "step r s s' \<Longrightarrow> stopRequested s \<Longrightarrow> stopRequested s'"
  by (auto simp: step_def)

lemma runSeries_all:
  "runSeries env params func dataArray k durations s = (Inr ds, s') \<Longrightarrow>
   \<not> stopRequested s' \<Longrightarrow> length ds = length durations + k"
proof (induction k arbitrary: durations s)
  case 0
  then show ?case by simp
next
  case (Suc k)
  have ns: "\<not> stopRequested s"
  proof
    assume "stopRequested s"
    with Suc.prems(1) have "s' = s" by simp
    with Suc.prems(2) \<open>stopRequested s\<close> show False by simp
  qed
  let ?s0 = "if forceGC params then s\<lparr> world := runGC env (world s) \<rparr> else s"
  from Suc.prems(1) ns
  have b: "bindR (if rf_isAsync func
             then awaited env (measureSeriesAsync env (seriesSize params) dataArray (rf_fn func) ?s0)
             else measureSeries env (seriesSize params) dataArray (rf_fn func) ?s0)
        (\<lambda>duration s1.
           runSeries env params func dataArray k (durations @ [duration])
             (suspend env (s1\<lparr> trace := trace s1 @ [Wait (delay params)] \<rparr>))) = (Inr ds, s')"
    by (simp add: Let_def)
  from b show ?case
  proof (cases rule: bindR_E)
    case (throws e)
    then show ?thesis by simp
  next
    case (returns d s1)
    from Suc.IH [OF returns(2) Suc.prems(2)] show ?thesis by simp
  qed
qed

lemma runMeasureItem_all:
  assumes run: "runMeasureItem env params stepsTotal sharedDataArray dataSize item func t = (Inr (), t')"
    and ns: "\<not> stopRequested t'"
  shows "\<exists>ev res. emitted (trace t') = emitted (trace t) @ [ev] \<and> ev_result ev = Some res \<and>
           length (mr_series res) = seriesCount params"
  using run [unfolded runMeasureItem_def]
proof (cases rule: bindR_E)
  case (throws e)
  then show ?thesis by simp
next
  case (returns dataArray s1)
  note q1 = dataArray_quiet [OF returns(1)]
  from returns(2) show ?thesis
  proof (cases rule: bindR_E)
    case (throws e)
    then show ?thesis by simp
  next
    case (returns durations s2)
    note q2 = runSeries_quiet [OF returns(1)]
    from returns(2) show ?thesis
    proof (cases rule: bindR_E)
      case (throws e)
      then show ?thesis by simp
    next
      case (returns memoryUsages s3)
      note q3 = measureMemory_quiet [OF returns(1)]
      note st3 = measureMemory_step [OF returns(1)]
      let ?ev = "\<lparr> ev_path = rf_path func, ev_title = title item, ev_dataSize = dataSize,
            ev_progress = progressOf (currentStep s3 + dataSize) stepsTotal,
            ev_result = Some (measurementResult (rf_path func) (title item) dataSize
                                   durations (seriesSize params) memoryUsages),
            ev_customResult = None \<rparr>"
      from returns(2) have t': "t' = emit env ?ev (s3\<lparr> currentStep := currentStep s3 + dataSize \<rparr>)"
        by (auto simp: Let_def)
      have st4: "step (Inr ()) s3 t'"
        unfolding t' by (rule emit_step) simp
      have "\<not> stopRequested s2"
        using ns step_stop_mono [OF step_trans [OF st3 st4]] by blast
      then have len: "length durations = seriesCount params"
        using runSeries_all [OF \<open>runSeries env params func dataArray (seriesCount params) [] s1 =
          (Inr durations, s2)\<close>] by simp
      obtain calls where tr: "trace t' = trace s3 @ Emitted ?ev # map Received calls"
        unfolding t' using trace_emit [of env ?ev "s3\<lparr> currentStep := currentStep s3 + dataSize \<rparr>"]
        by auto
      have em: "emitted (trace s3) = emitted (trace t)"
        using q1 q2 q3 by (simp add: quiet_def)
      have "emitted (trace t') = emitted (trace t) @ [?ev]" by (simp add: tr em)
      moreover have "length (mr_series (measurementResult (rf_path func) (title item) dataSize
                                   durations (seriesSize params) memoryUsages)) = seriesCount params"
        by (simp add: measurementResult_def Let_def len)
      ultimately show ?thesis by (intro exI [of _ ?ev] exI) simp
    qed
  qed
qed

lemma skip_checkpoints:
  assumes "isSkipped key t"
  shows "forPathKeys env params stepsTotal byKey (key # keys) t =
         forPathKeys env params stepsTotal byKey keys t"
    and "forDataSizes env params stepsTotal key items g same sizes t = (Inr (), t)"
    and "forItems env params stepsTotal key sharedDataArray dataSize items t = (Inr (), t)"
proof -
  show "forPathKeys env params stepsTotal byKey (key # keys) t =
        forPathKeys env params stepsTotal byKey keys t"
  proof (cases "stopRequested t")
    case True
    then show ?thesis by (simp add: stop_checkpoints(1))
  next
    case False
    with assms show ?thesis by (cases "itemsOf byKey key") simp_all
  qed
  show "forDataSizes env params stepsTotal key items g same sizes t = (Inr (), t)"
    using assms by (cases sizes) simp_all
  show "forItems env params stepsTotal key sharedDataArray dataSize items t = (Inr (), t)"
    using assms by (cases items) simp_all
qed

lemma step_skip_mono: "step r s s' \<Longrightarrow> isSkipped key s \<Longrightarrow> isSkipped key s'"
  by (cases key) (auto simp: step_def isSkipped_def)

text \<open>
  Claim C9. A path key that is in the skip set when its group is reached is passed over:
  the run goes on with the following groups as if the group were not in the plan, and so
  emits nothing for it. The skip set is also consulted at the start of every data size
  and before every leaf, where it ends the loop of the group. \<^verbatim>\<open>skipPathKey\<close> puts its
  key into the set, and a key stays in the set to the end of the run. The series loop of a
  leaf does not consult the set: a measure leaf that returns without the stop flag set has
  run all its series and emitted its event, whatever skip requests arrived meanwhile.
\<close>

theorem skip_passes_group:
  "(isSkipped key t \<longrightarrow>
      forPathKeys env params stepsTotal byKey (key # keys) t =
        forPathKeys env params stepsTotal byKey keys t \<and>
      forDataSizes env params stepsTotal key items g same sizes t = (Inr (), t) \<and>
      forItems env params stepsTotal key sharedDataArray dataSize items t = (Inr (), t)) \<and>
   isSkipped (Some k) (skipPathKey k v) \<and>
   (forPathKeys env params stepsTotal byKey plan w = (r, w') \<and> isSkipped key w \<longrightarrow>
      isSkipped key w') \<and>
   (runMeasureItem env params stepsTotal sharedDataArray dataSize item func u = (Inr (), u') \<and>
    \<not> stopRequested u' \<longrightarrow>
      (\<exists>ev res. emitted (trace u') = emitted (trace u) @ [ev] \<and> ev_result ev = Some res \<and>
         length (mr_series res) = seriesCount params))"
proof (intro conjI impI)
  assume sk: "isSkipped key t"
  show "forPathKeys env params stepsTotal byKey (key # keys) t =
        forPathKeys env params stepsTotal byKey keys t"
    by (rule skip_checkpoints(1) [OF sk])
  show "forDataSizes env params stepsTotal key items g same sizes t = (Inr (), t)"
    by (rule skip_checkpoints(2) [OF sk])
  show "forItems env params stepsTotal key sharedDataArray dataSize items t = (Inr (), t)"
    by (rule skip_checkpoints(3) [OF sk])
next
  show "isSkipped (Some k) (skipPathKey k v)" by (simp add: isSkipped_def skipPathKey_def)
next
  assume "forPathKeys env params stepsTotal byKey plan w = (r, w') \<and> isSkipped key w"
  then show "isSkipped key w'" using step_skip_mono [OF forPathKeys_step] by blast
next
  assume "runMeasureItem env params stepsTotal sharedDataArray dataSize item func u = (Inr (), u') \<and>
    \<not> stopRequested u'"
  then show "\<exists>ev res. emitted (trace u') = emitted (trace u) @ [ev] \<and> ev_result ev = Some res \<and>
         length (mr_series res) = seriesCount params"
    using runMeasureItem_all by blast
qed

lemma skipGH_facts:
  "map shapeOf (emitted (trace (snd
      (forPathKeys quietEnv (applyOverrides configGH noSettings) 90
         (itemsByPathKey (unifiedItems registryGH configGH)) [Some ''H'']
         (skipPathKey ''G'' idle))))) =
     [(Some [''H'', ''c''], ''c'', 10), (Some [''H'', ''c''], ''c'', 20)]"
  "map shapeOf (emitted (trace (snd (runMeasurements skippingEnv registryGH configGH idle)))) =
     [(Some [''G'', ''a''], ''a'', 10), (Some [''G'', ''b''], ''b'', 10),
      (Some [''G'', ''a''], ''a'', 20), (Some [''G'', ''b''], ''b'', 20)]"
  "fst (runMeasurements skippingEnv registryGH configGH idle) = Inr ()"
  by code_simp+

lemma midSkip_facts:
  "fst (runMeasureItem midSkipEnv (applyOverrides configS noSettings) 20 (Some [10]) 10
          (unifiedItems registryA configS ! 0) leafA idle) = Inr ()"
  "\<not> stopRequested (snd (runMeasureItem midSkipEnv (applyOverrides configS noSettings) 20
          (Some [10]) 10 (unifiedItems registryA configS ! 0) leafA idle))"
  "received (trace (snd (runMeasureItem midSkipEnv (applyOverrides configS noSettings) 20
          (Some [10]) 10 (unifiedItems registryA configS ! 0) leafA idle))) =
     [SkipPathKeyCall ''G'', SkipPathKeyCall ''G'', SkipPathKeyCall ''G'']"
  "seriesLengths (emitted (trace (snd (runMeasureItem midSkipEnv
          (applyOverrides configS noSettings) 20 (Some [10]) 10
          (unifiedItems registryA configS ! 0) leafA idle)))) = [Some 3]"
  "seriesCount (applyOverrides configS noSettings) = 3"
  "emitted (trace idle) = []"
  by code_simp+

theorem skip_passes_group_witness:
  "isSkipped (Some ''G'') (skipPathKey ''G'' idle) \<and>
   forPathKeys quietEnv (applyOverrides configGH noSettings) 90
     (itemsByPathKey (unifiedItems registryGH configGH)) [Some ''G'', Some ''H'']
     (skipPathKey ''G'' idle) =
   forPathKeys quietEnv (applyOverrides configGH noSettings) 90
     (itemsByPathKey (unifiedItems registryGH configGH)) [Some ''H'']
     (skipPathKey ''G'' idle) \<and>
   map shapeOf (emitted (trace (snd
      (forPathKeys quietEnv (applyOverrides configGH noSettings) 90
         (itemsByPathKey (unifiedItems registryGH configGH)) [Some ''G'', Some ''H'']
         (skipPathKey ''G'' idle))))) =
     [(Some [''H'', ''c''], ''c'', 10), (Some [''H'', ''c''], ''c'', 20)] \<and>
   map shapeOf (emitted (trace (snd (runMeasurements skippingEnv registryGH configGH idle)))) =
     [(Some [''G'', ''a''], ''a'', 10), (Some [''G'', ''b''], ''b'', 10),
      (Some [''G'', ''a''], ''a'', 20), (Some [''G'', ''b''], ''b'', 20)] \<and>
   received (trace (snd (runMeasureItem midSkipEnv (applyOverrides configS noSettings) 20
          (Some [10]) 10 (unifiedItems registryA configS ! 0) leafA idle))) =
     [SkipPathKeyCall ''G'', SkipPathKeyCall ''G'', SkipPathKeyCall ''G''] \<and>
   (\<exists>ev res. emitted (trace (snd (runMeasureItem midSkipEnv (applyOverrides configS noSettings)
          20 (Some [10]) 10 (unifiedItems registryA configS ! 0) leafA idle))) = [ev] \<and>
      ev_result ev = Some res \<and> length (mr_series res) = 3) \<and>
   seriesLengths (emitted (trace (snd (runMeasureItem midSkipEnv
          (applyOverrides configS noSettings) 20 (Some [10]) 10
          (unifiedItems registryA configS ! 0) leafA idle)))) = [Some 3]"
proof -
  let ?item = "runMeasureItem midSkipEnv (applyOverrides configS noSettings) 20 (Some [10]) 10
          (unifiedItems registryA configS ! 0) leafA idle"
  have item: "?item = (Inr (), snd ?item)" using midSkip_facts(1) by (simp add: prod_eq_iff)
  note inst = skip_passes_group [where t = "skipPathKey ''G'' idle" and key = "Some ''G''"
      and k = "''G''" and v = idle and keys = "[Some ''H'']" and env = quietEnv
      and params = "applyOverrides configGH noSettings" and stepsTotal = 90
      and byKey = "itemsByPathKey (unifiedItems registryGH configGH)"]
  note inst2 = skip_passes_group [where env = midSkipEnv
      and params = "applyOverrides configS noSettings" and stepsTotal = 20
      and sharedDataArray = "Some [10]" and dataSize = 10
      and item = "unifiedItems registryA configS ! 0" and func = leafA and u = idle
      and u' = "snd ?item"]
  from inst have a: "isSkipped (Some ''G'') (skipPathKey ''G'' idle)" by blast
  with inst have b: "forPathKeys quietEnv (applyOverrides configGH noSettings) 90
     (itemsByPathKey (unifiedItems registryGH configGH)) [Some ''G'', Some ''H'']
     (skipPathKey ''G'' idle) =
   forPathKeys quietEnv (applyOverrides configGH noSettings) 90
     (itemsByPathKey (unifiedItems registryGH configGH)) [Some ''H'']
     (skipPathKey ''G'' idle)" by blast
  from inst2 item midSkip_facts(2)
  have "\<exists>ev res. emitted (trace (snd ?item)) = emitted (trace idle) @ [ev] \<and>
      ev_result ev = Some res \<and>
      length (mr_series res) = seriesCount (applyOverrides configS noSettings)"
    by blast
  then have c: "\<exists>ev res. emitted (trace (snd ?item)) = [ev] \<and> ev_result ev = Some res \<and>
      length (mr_series res) = 3"
    by (simp add: midSkip_facts(5,6))
  from a b c skipGH_facts(1,2) midSkip_facts(3,4) show ?thesis by simp
qed

end
